theory Spec2Isabelle
  imports Complex_Main "HOL-Library.Word"
begin

unbundle bit_operations_syntax

section \<open>Framework and error reporting\<close>

text \<open>
  The source is \<^verbatim>\<open>parse_double.cpp\<close>.  \<^verbatim>\<open>struct Status\<close> is a record; the
  \<^verbatim>\<open>char error_message[1024]\<close> buffer is the string that \<^verbatim>\<open>vsnprintf\<close> leaves in
  it, at most 1023 characters.  \<^verbatim>\<open>struct DataStream\<close> is the pair of pointers
  \<^verbatim>\<open>ptr\<close>, \<^verbatim>\<open>end\<close> into a buffer that the parser only reads; it is modelled by the
  bytes of the window \<^verbatim>\<open>[ptr, end)\<close>: \<^verbatim>\<open>s->ptr == s->end\<close> is \<open>s = []\<close>, \<^verbatim>\<open>*s->ptr\<close> is
  the head, \<^verbatim>\<open>s->ptr++\<close> drops the head and \<^verbatim>\<open>s->ptr--\<close> right after it puts the same
  byte back.  A \<^verbatim>\<open>uint8_t\<close> is a \<^typ>\<open>char\<close> (HOL characters are bytes), read as a number
  by \<^const>\<open>of_char\<close>.
\<close>

record Status =
  failed :: bool
  error_message :: string

type_synonym DataStream = string

text \<open>\<^verbatim>\<open>datastream_fetch\<close>: in this repository the body is empty after its assertion.\<close>

definition datastream_fetch :: "Status \<Rightarrow> DataStream \<Rightarrow> Status \<times> DataStream" where
  "datastream_fetch st s = (st, s)"

text \<open>
  \<^verbatim>\<open>fail_here\<close>: sets the flag and prints the message into the buffer, whatever the
  buffer held.  The argument \<open>msg\<close> is the text after formatting.
\<close>

definition fail_here :: "Status \<Rightarrow> DataStream \<Rightarrow> string \<Rightarrow> Status" where
  "fail_here st s msg = st\<lparr>failed := True, error_message := take 1023 msg\<rparr>"

text \<open>The pieces of \<^verbatim>\<open>printf\<close> formatting the messages use.\<close>

definition hex_digit :: "nat \<Rightarrow> char" where
  "hex_digit n = ''0123456789abcdef'' ! n"

text \<open>\<^verbatim>\<open>%02x\<close> of a byte.\<close>

definition fmt_02x :: "char \<Rightarrow> string" where
  "fmt_02x ch = [hex_digit ((of_char ch :: nat) div 16), hex_digit ((of_char ch :: nat) mod 16)]"

text \<open>
  \<^verbatim>\<open>(ch >= 0x20 && ch < 0x7f) ? format_buf : ""\<close> where \<^verbatim>\<open>format_buf\<close> is
  \<^verbatim>\<open>"'x' "\<close> with the byte written over the \<^verbatim>\<open>x\<close>.
\<close>

definition fmt_quoted :: "char \<Rightarrow> string" where
  "fmt_quoted ch =
     (if (32::nat) \<le> of_char ch \<and> of_char ch < (127::nat) then [CHR 0x27, ch, CHR 0x27, CHR '' ''] else [])"

definition msg_end_of_stream_expected :: "char \<Rightarrow> string" where
  "msg_end_of_stream_expected w =
     ''Unexpected end of stream; expected character '' @ [CHR 0x27, w, CHR 0x27] @ ''.'' @ [CHR 0x0A]"

definition msg_unexpected_expected :: "char \<Rightarrow> char \<Rightarrow> string" where
  "msg_unexpected_expected ch w =
     ''Unexpected character ('' @ fmt_quoted ch @ ''0x'' @ fmt_02x ch @ ''); expected ''
       @ [CHR 0x27, w, CHR 0x27] @ ''.'' @ [CHR 0x0A]"

definition msg_end_of_stream :: string where
  "msg_end_of_stream =
     ''Unexpected end-of-stream; expected decimal floating-point number.'' @ [CHR 0x0A]"

definition msg_unexpected_in_literal :: "char \<Rightarrow> string" where
  "msg_unexpected_in_literal ch =
     ''Unexpected character ('' @ fmt_quoted ch @ ''0x'' @ fmt_02x ch @ '') in numeric literal.''
       @ [CHR 0x0A]"

definition msg_incomplete_exponent :: string where
  "msg_incomplete_exponent = ''Incomplete exponent in decimal floating-point number.''"

definition msg_without_digits :: string where
  "msg_without_digits = ''Numeric literal without digits.'' @ [CHR 0x0A]"

section \<open>Software floating-point multiplication\<close>

text \<open>
  The intrinsic \<^verbatim>\<open>_umul128\<close> is not part of the repository: it returns the low 64 bits
  of the 128-bit product of its operands and stores the high 64 bits.  The pair is
  (low, high).
\<close>

definition umul128 :: "64 word \<Rightarrow> 64 word \<Rightarrow> 64 word \<times> 64 word" where
  "umul128 a b = (word_of_int (uint a * uint b), word_of_int (uint a * uint b div 2 ^ 64))"

text \<open>
  A C \<^verbatim>\<open>int\<close> holds 32 bits.  The binary exponents are integers here, and where the
  source adds to one the sum is reduced to the 32 bits the variable holds (the overflow
  itself is undefined in C; compiled code wraps around).
\<close>

definition int32 :: "int \<Rightarrow> int" where
  "int32 x = (x + 2 ^ 31) mod 2 ^ 32 - 2 ^ 31"

text \<open>
  \<^verbatim>\<open>mulf64\<close>.  The operands \<^verbatim>\<open>*mx\<close>, \<^verbatim>\<open>*ex\<close> are passed in and the updated pair is
  returned; \<^verbatim>\<open>*ex += ey\<close> and \<^verbatim>\<open>*ex += 1\<close> store into a C \<^verbatim>\<open>int\<close>.
  \<^verbatim>\<open>(uint64_t)(overflow + 1) << 63\<close> keeps the low bit of \<open>overflow + 1\<close> only.
\<close>

definition mulf64 :: "64 word \<Rightarrow> int \<Rightarrow> 64 word \<Rightarrow> int \<Rightarrow> 64 word \<times> int" where
  "mulf64 mx ex my ey =
     (let hi = snd (umul128 mx my);
          ex1 = int32 (ex + ey);
          mx1 = mx + my;
          overflow1 = (if mx1 < my then 1 else 0 :: int);
          mx2 = mx1 + hi;
          overflow = (if mx2 < hi then overflow1 + 1 else overflow1)
      in if overflow \<noteq> 0
         then (drop_bit 1 mx2 OR push_bit 63 (word_of_int (overflow + 1)), int32 (ex1 + 1))
         else (mx2, ex1))"

text \<open>The tables of \<open>10 ^ (2 ^ k)\<close> and \<open>10 ^ - (2 ^ k)\<close>, mantissa and exponent.\<close>

definition mant1e256 :: "64 word" where "mant1e256 = 0b0101010011111101110101111111011100111011111100111011110100011100"
definition mant1e128 :: "64 word" where "mant1e128 = 0b0010011101110100100011111001001100000001110100110001100111000000"
definition mant1e64 :: "64 word" where "mant1e64 = 0b1000010011110000001111101001001111111111100111110100110110101010"
definition mant1e32 :: "64 word" where "mant1e32 = 0b0011101110001011010110110101000001010110111000010110101100111100"
definition mant1e16 :: "64 word" where "mant1e16 = 0b0001110000110111100100110111111000001000000000000000000000000000"
definition mant1e8 :: "64 word" where "mant1e8 = 0b0111110101111000010000000000000000000000000000000000000000000000"
definition mant1e4 :: "64 word" where "mant1e4 = 0b0011100010000000000000000000000000000000000000000000000000000000"
definition mant1e2 :: "64 word" where "mant1e2 = 0b1001000000000000000000000000000000000000000000000000000000000000"
definition mant1e1 :: "64 word" where "mant1e1 = 0b0100000000000000000000000000000000000000000000000000000000000000"

definition exp1e256 :: int where "exp1e256 = 850"
definition exp1e128 :: int where "exp1e128 = 425"
definition exp1e64 :: int where "exp1e64 = 212"
definition exp1e32 :: int where "exp1e32 = 106"
definition exp1e16 :: int where "exp1e16 = 53"
definition exp1e8 :: int where "exp1e8 = 26"
definition exp1e4 :: int where "exp1e4 = 13"
definition exp1e2 :: int where "exp1e2 = 6"
definition exp1e1 :: int where "exp1e1 = 3"

definition mant1en256 :: "64 word" where "mant1en256 = 0b1000000001100010100001100100101011000110111101000011001001110100"
definition mant1en128 :: "64 word" where "mant1en128 = 0b1011101110100000100011001111100011001001011110011100100101000001"
definition mant1en64 :: "64 word" where "mant1en64 = 0b0101000011111111110101000100111101001010011100111101001101001010"
definition mant1en32 :: "64 word" where "mant1en32 = 0b1001111101100010001111010101101010001010011100110010100101110101"
definition mant1en16 :: "64 word" where "mant1en16 = 0b1100110100101011001010010111110110001000100110111100001010110111"
definition mant1en8 :: "64 word" where "mant1en8 = 0b0101011110011000111011100010001100001000110000111001110111111010"
definition mant1en4 :: "64 word" where "mant1en4 = 0b1010001101101110001011101011000111000100001100101100101001011000"
definition mant1en2 :: "64 word" where "mant1en2 = 0b0100011110101110000101000111101011100001010001111010111000010100"
definition mant1en1 :: "64 word" where "mant1en1 = 0b1001100110011001100110011001100110011001100110011001100110011010"

definition exp1en256 :: int where "exp1en256 = - 851"
definition exp1en128 :: int where "exp1en128 = - 426"
definition exp1en64 :: int where "exp1en64 = - 213"
definition exp1en32 :: int where "exp1en32 = - 107"
definition exp1en16 :: int where "exp1en16 = - 54"
definition exp1en8 :: int where "exp1en8 = - 27"
definition exp1en4 :: int where "exp1en4 = - 14"
definition exp1en2 :: int where "exp1en2 = - 7"
definition exp1en1 :: int where "exp1en1 = - 4"

section \<open>The literal scanner\<close>

text \<open>
  The local variables of \<^verbatim>\<open>parse_double\<close> that the scanner updates.  \<^verbatim>\<open>digits\<close> is a
  C \<^verbatim>\<open>int\<close> that is incremented and compared with 0: a 32-bit word.
  \<^verbatim>\<open>significant_digits\<close> is a C \<^verbatim>\<open>int\<close> as well; it is an integer here, and stays
  between 0 and 20.  \<^verbatim>\<open>fractional_digits\<close> is an \<^verbatim>\<open>int64_t\<close>, a 64-bit word read with
  \<^const>\<open>sint\<close>; \<^verbatim>\<open>mantissa\<close> and \<^verbatim>\<open>decimal_exponent\<close> are \<^verbatim>\<open>uint64_t\<close>.
\<close>

record scanner =
  negative :: bool
  mantissa :: "64 word"
  digits :: "32 word"
  significant_digits :: int
  fractional_digits :: "64 word"
  decimal_exponent :: "64 word"

definition initial_scanner :: scanner where
  "initial_scanner = \<lparr>negative = False, mantissa = 0, digits = 0, significant_digits = 0,
     fractional_digits = - 1, decimal_exponent = 0\<rparr>"

text \<open>
  The labels a \<^verbatim>\<open>goto\<close> of the scanner leaves it through; \<open>return_nan\<close> stands for
  the \<^verbatim>\<open>return\<close> under \<^verbatim>\<open>parse_nan\<close>.  A jump carries the status, the window and the
  local variables at that moment.
\<close>

datatype label =
  failed_label
  | end_of_number
  | return_possibly_signed_zero
  | return_possibly_signed_infinity
  | return_nan

type_synonym jump = "label \<times> Status \<times> DataStream \<times> scanner"

text \<open>\<^verbatim>\<open>uint64_t digit_value = ch - '0'\<close>: below \<^verbatim>\<open>'0'\<close> the difference wraps around.\<close>

definition digit_value :: "char \<Rightarrow> 64 word" where
  "digit_value ch = of_char ch - 48"

text \<open>\<^verbatim>\<open>(uint64_t)1844674407370955161 - (digit_value >= 6)\<close>\<close>

definition mantissa_limit :: "64 word \<Rightarrow> 64 word" where
  "mantissa_limit dv = 1844674407370955161 - (if 6 \<le> dv then 1 else 0)"

text \<open>
  \<^verbatim>\<open>datastream_consume_word\<close>.  After a mismatch the loop goes on with the next byte
  and the next character of the word, as the source does.
\<close>

definition word_mismatch :: "Status \<Rightarrow> DataStream \<Rightarrow> char \<Rightarrow> char \<Rightarrow> Status" where
  "word_mismatch st s ch w =
     (if ch \<noteq> w then fail_here st s (msg_unexpected_expected ch w) else st)"

fun datastream_consume_word :: "Status \<Rightarrow> DataStream \<Rightarrow> string \<Rightarrow> Status \<times> DataStream" where
  "datastream_consume_word st s [] = (st, s)"
| "datastream_consume_word st [] (w # word) =
     (case datastream_fetch st [] of (st1, s1) \<Rightarrow>
        if failed st1 then (st1, s1)
        else (case s1 of
                [] \<Rightarrow> (fail_here st1 s1 (msg_end_of_stream_expected w), s1)
              | ch # rest \<Rightarrow> datastream_consume_word (word_mismatch st1 s1 ch w) rest word))"
| "datastream_consume_word st (ch # rest) (w # word) =
     datastream_consume_word (word_mismatch st (ch # rest) ch w) rest word"

text \<open>The code under \<^verbatim>\<open>end_of_exponent\<close>, up to \<^verbatim>\<open>goto end_of_number\<close>.\<close>

definition end_of_exponent :: "Status \<Rightarrow> DataStream \<Rightarrow> scanner \<Rightarrow> bool \<Rightarrow> 64 word \<Rightarrow> jump" where
  "end_of_exponent st s acc negative_exponent absolute_exponent =
     (if negative_exponent \<and> absolute_exponent \<noteq> 0 then
        (let de = decimal_exponent acc;
             de1 = (if absolute_exponent \<le> de then de - absolute_exponent else 0);
             ae1 = (if absolute_exponent \<le> de then 0 else absolute_exponent - de);
             fd = (if sint (fractional_digits acc) < 0 then 0 else fractional_digits acc);
             fd1 = fd + ae1;
             acc1 = acc\<lparr>fractional_digits := fd1, decimal_exponent := de1\<rparr>
         in if sint fd1 < 0 \<or> fd1 < ae1 then (return_possibly_signed_zero, st, s, acc1)
            else (end_of_number, st, s, acc1))
      else
        (let fd = fractional_digits acc;
             fd1 = (if 0 < sint fd then (if absolute_exponent \<le> fd then fd - absolute_exponent else 0)
                    else fd);
             ae1 = (if 0 < sint fd then (if absolute_exponent \<le> fd then 0 else absolute_exponent - fd)
                    else absolute_exponent);
             de1 = decimal_exponent acc + ae1;
             acc1 = acc\<lparr>fractional_digits := fd1, decimal_exponent := de1\<rparr>
         in if de1 < ae1 then (return_possibly_signed_infinity, st, s, acc1)
            else (end_of_number, st, s, acc1)))"

text \<open>The loop over the digits of the exponent, lines 297 to 317.\<close>

function exponent_loop :: "Status \<Rightarrow> DataStream \<Rightarrow> scanner \<Rightarrow> bool \<Rightarrow> 64 word \<Rightarrow> jump" where
  "exponent_loop st [] acc negative_exponent absolute_exponent =
     (case datastream_fetch st [] of (st1, s1) \<Rightarrow>
        if failed st1 then (failed_label, st1, s1, acc)
        else if s1 \<noteq> [] then exponent_loop st1 s1 acc negative_exponent absolute_exponent
        else end_of_exponent st1 s1 acc negative_exponent absolute_exponent)"
| "exponent_loop st (ch # rest) acc negative_exponent absolute_exponent =
     (if digit_value ch \<le> 9 then
        (if mantissa_limit (digit_value ch) < absolute_exponent then
           (if negative_exponent \<or> significant_digits acc = 0
            then (return_possibly_signed_zero, st, ch # rest, acc)
            else (return_possibly_signed_infinity, st, ch # rest, acc))
         else exponent_loop st rest acc negative_exponent (10 * absolute_exponent + digit_value ch))
      else end_of_exponent st (ch # rest) acc negative_exponent absolute_exponent)"
  by pat_completeness auto
termination
  by (relation "measure (\<lambda>(st, s, acc, ne, ae). length s)") (auto simp: datastream_fetch_def)

text \<open>
  The optional sign of the exponent: \<^verbatim>\<open>ch = *s->ptr++\<close>, and the byte is put back
  unless it is a sign.
\<close>

definition exponent_sign :: "Status \<Rightarrow> char \<Rightarrow> DataStream \<Rightarrow> scanner \<Rightarrow> jump" where
  "exponent_sign st ch rest acc =
     exponent_loop st (if ch = CHR ''-'' \<or> ch = CHR ''+'' then rest else ch # rest) acc
       (ch = CHR ''-'') 0"

text \<open>
  \<^verbatim>\<open>parse_exponent\<close>: entered with the cursor on the exponent marker; the argument is
  the window after the \<^verbatim>\<open>s->ptr++\<close> that skips the marker.
\<close>

definition parse_exponent :: "Status \<Rightarrow> DataStream \<Rightarrow> scanner \<Rightarrow> jump" where
  "parse_exponent st s acc =
     (case s of
        [] \<Rightarrow>
          (case datastream_fetch st [] of (st1, s1) \<Rightarrow>
             if failed st1 then (failed_label, st1, s1, acc)
             else (case s1 of
                     [] \<Rightarrow> (failed_label, fail_here st1 s1 msg_incomplete_exponent, s1, acc)
                   | ch # rest \<Rightarrow> exponent_sign st1 ch rest acc))
      | ch # rest \<Rightarrow> exponent_sign st ch rest acc)"

text \<open>\<^verbatim>\<open>parse_infinity\<close> and \<^verbatim>\<open>parse_nan\<close>, entered with the cursor on the first letter.\<close>

definition parse_infinity :: "Status \<Rightarrow> DataStream \<Rightarrow> scanner \<Rightarrow> jump" where
  "parse_infinity st s acc =
     (case datastream_consume_word st s ''inf'' of (st1, s1) \<Rightarrow>
        if failed st1 then (failed_label, st1, s1, acc)
        else (return_possibly_signed_infinity, st1, s1, acc))"

definition parse_nan :: "Status \<Rightarrow> DataStream \<Rightarrow> scanner \<Rightarrow> jump" where
  "parse_nan st s acc =
     (case datastream_consume_word st s ''nan'' of (st1, s1) \<Rightarrow>
        if failed st1 then (failed_label, st1, s1, acc)
        else (return_nan, st1, s1, acc))"

text \<open>
  The loop that skips the digits the mantissa cannot take, lines 392 to 409.  The
  first argument of the recursive call is the window after \<^verbatim>\<open>s->ptr++\<close>.
\<close>

function skip_digits :: "Status \<Rightarrow> DataStream \<Rightarrow> scanner \<Rightarrow> jump" where
  "skip_digits st [] acc =
     (case datastream_fetch st [] of (st1, s1) \<Rightarrow>
        if failed st1 then (failed_label, st1, s1, acc)
        else if s1 \<noteq> [] then skip_digits st1 s1 acc
        else (end_of_number, st1, s1, acc))"
| "skip_digits st (ch # rest) acc =
     (if ch = CHR ''.'' \<and> sint (fractional_digits acc) < 0 then
        skip_digits st rest (acc\<lparr>fractional_digits := 0\<rparr>)
      else if ch = CHR ''e'' \<or> ch = CHR ''E'' then parse_exponent st rest acc
      else if (of_char ch :: nat) < 48 \<or> 57 < (of_char ch :: nat) then (end_of_number, st, ch # rest, acc)
      else skip_digits st rest
             (if sint (fractional_digits acc) < 0
              then acc\<lparr>decimal_exponent := decimal_exponent acc + 1\<rparr> else acc))"
  by pat_completeness auto
termination
  by (relation "measure (\<lambda>(st, s, acc). length s)") (auto simp: datastream_fetch_def)

text \<open>The digit branch of the main loop, lines 241 to 269.\<close>

definition accumulate_digit :: "scanner \<Rightarrow> 64 word \<Rightarrow> scanner" where
  "accumulate_digit acc dv =
     (if mantissa_limit dv < mantissa acc then
        acc\<lparr>digits := digits acc + 1,
            significant_digits := 20,
            decimal_exponent :=
              (if sint (fractional_digits acc) < 0 then decimal_exponent acc + 1
               else decimal_exponent acc)\<rparr>
      else
        acc\<lparr>digits := digits acc + 1,
            mantissa := 10 * mantissa acc + dv,
            significant_digits :=
              (if dv \<noteq> 0 \<or> significant_digits acc \<noteq> 0 then significant_digits acc + 1
               else significant_digits acc),
            fractional_digits :=
              (if 0 \<le> sint (fractional_digits acc) then fractional_digits acc + 1
               else fractional_digits acc)\<rparr>)"

text \<open>
  The main loop, lines 236 to 415.  A digit and the first decimal point fall through
  to \<^verbatim>\<open>s->ptr++\<close> and the test \<^verbatim>\<open>significant_digits >= 20\<close>.
\<close>

function main_loop :: "Status \<Rightarrow> DataStream \<Rightarrow> scanner \<Rightarrow> jump" where
  "main_loop st [] acc =
     (case datastream_fetch st [] of (st1, s1) \<Rightarrow>
        if failed st1 then (failed_label, st1, s1, acc)
        else if s1 \<noteq> [] then main_loop st1 s1 acc
        else (end_of_number, st1, s1, acc))"
| "main_loop st (ch # rest) acc =
     (if digit_value ch \<le> 9 then
        (if 20 \<le> significant_digits (accumulate_digit acc (digit_value ch))
         then skip_digits st rest (accumulate_digit acc (digit_value ch))
         else main_loop st rest (accumulate_digit acc (digit_value ch)))
      else if ch = CHR ''.'' then
        (if 0 \<le> sint (fractional_digits acc) then (end_of_number, st, ch # rest, acc)
         else if 20 \<le> significant_digits acc
         then skip_digits st rest (acc\<lparr>fractional_digits := 0\<rparr>)
         else main_loop st rest (acc\<lparr>fractional_digits := 0\<rparr>))
      else if (ch = CHR ''e'' \<or> ch = CHR ''E'') \<and> digits acc \<noteq> 0 then parse_exponent st rest acc
      else if ch = CHR ''i'' \<and> digits acc = 0 then parse_infinity st (ch # rest) acc
      else if ch = CHR ''n'' \<and> digits acc = 0 then parse_nan st (ch # rest) acc
      else (end_of_number, st, ch # rest, acc))"
  by pat_completeness auto
termination
  by (relation "measure (\<lambda>(st, s, acc). length s)") (auto simp: datastream_fetch_def)

text \<open>The \<^verbatim>\<open>switch\<close> on the first byte, lines 199 to 233.\<close>

definition first_byte :: "Status \<Rightarrow> char \<Rightarrow> DataStream \<Rightarrow> jump" where
  "first_byte st ch rest =
     (if ch = CHR ''-'' then main_loop st rest (initial_scanner\<lparr>negative := True\<rparr>)
      else if ch = CHR ''+'' then main_loop st rest initial_scanner
      else if ch = CHR ''0'' then main_loop st rest (initial_scanner\<lparr>digits := 1\<rparr>)
      else if (49::nat) \<le> of_char ch \<and> of_char ch \<le> (57::nat) then
        main_loop st rest
          (initial_scanner\<lparr>mantissa := digit_value ch, digits := 1, significant_digits := 1\<rparr>)
      else if ch = CHR ''.'' then main_loop st rest (initial_scanner\<lparr>fractional_digits := 0\<rparr>)
      else if ch = CHR ''i'' then parse_infinity st (ch # rest) initial_scanner
      else if ch = CHR ''n'' then parse_nan st (ch # rest) initial_scanner
      else (failed_label, fail_here st rest (msg_unexpected_in_literal ch), rest, initial_scanner))"

text \<open>The scanner from the entry of \<^verbatim>\<open>parse_double\<close> to the label it leaves through.\<close>

definition scan_literal :: "Status \<Rightarrow> DataStream \<Rightarrow> jump" where
  "scan_literal st s =
     (case s of
        [] \<Rightarrow>
          (case datastream_fetch st [] of (st1, s1) \<Rightarrow>
             if failed st1 then (failed_label, st1, s1, initial_scanner)
             else (case s1 of
                     [] \<Rightarrow> (failed_label, fail_here st1 s1 msg_end_of_stream, s1, initial_scanner)
                   | ch # rest \<Rightarrow> first_byte st1 ch rest))
      | ch # rest \<Rightarrow> first_byte st ch rest)"

section \<open>Normalize, round, assemble\<close>

text \<open>
  The returned \<^verbatim>\<open>double\<close> is the 64-bit pattern that the source reinterprets:
  \<^verbatim>\<open>return 0.0\<close> is the pattern 0.
\<close>

definition signed_zero_bits :: "bool \<Rightarrow> 64 word" where
  "signed_zero_bits neg = (if neg then 0x8000000000000000 else 0)"

definition signed_infinity_bits :: "bool \<Rightarrow> 64 word" where
  "signed_infinity_bits neg = (if neg then 0xFFF0000000000000 else 0x7FF0000000000000)"

definition signed_nan_bits :: "bool \<Rightarrow> 64 word" where
  "signed_nan_bits neg = (if neg then 0xFFFFFFFFFFFFFFFF else 0x7FFFFFFFFFFFFFFF)"

text \<open>
  One line of the normalization without \<^verbatim>\<open>_BitScanReverse64\<close> (the macro that selects
  the intrinsic is not defined): \<^verbatim>\<open>if (!(mantissa & mask)) { mantissa <<= k; binexp -= k; }\<close>
\<close>

definition normalize_step :: "64 word \<Rightarrow> nat \<Rightarrow> 64 word \<times> int \<Rightarrow> 64 word \<times> int" where
  "normalize_step msk k p =
     (if fst p AND msk = 0 then (push_bit k (fst p), snd p - int k) else p)"

text \<open>Lines 456 to 463; the last shift drops the leading 1 bit.\<close>

definition normalize :: "64 word \<Rightarrow> 64 word \<times> int" where
  "normalize m =
     (let p = normalize_step 0xffffffff00000000 32 (m, 63);
          p = normalize_step 0xffff000000000000 16 p;
          p = normalize_step 0xff00000000000000 8 p;
          p = normalize_step 0xf000000000000000 4 p;
          p = normalize_step 0xc000000000000000 2 p;
          p = normalize_step 0x8000000000000000 1 p
      in (push_bit 1 (fst p), snd p))"

text \<open>\<^verbatim>\<open>if (n & bit) mulf64(&mantissa, &binexp, my, ey);\<close>\<close>

definition mul_if_bit :: "64 word \<Rightarrow> 64 word \<Rightarrow> 64 word \<Rightarrow> int \<Rightarrow> 64 word \<times> int \<Rightarrow> 64 word \<times> int" where
  "mul_if_bit n b my ey p = (if n AND b \<noteq> 0 then mulf64 (fst p) (snd p) my ey else p)"

text \<open>Lines 472 to 480 and 485 to 493.\<close>

definition mul_negative_powers :: "64 word \<Rightarrow> 64 word \<times> int \<Rightarrow> 64 word \<times> int" where
  "mul_negative_powers n p =
     (let p = mul_if_bit n 256 mant1en256 exp1en256 p;
          p = mul_if_bit n 128 mant1en128 exp1en128 p;
          p = mul_if_bit n 64 mant1en64 exp1en64 p;
          p = mul_if_bit n 32 mant1en32 exp1en32 p;
          p = mul_if_bit n 16 mant1en16 exp1en16 p;
          p = mul_if_bit n 8 mant1en8 exp1en8 p;
          p = mul_if_bit n 4 mant1en4 exp1en4 p;
          p = mul_if_bit n 2 mant1en2 exp1en2 p
      in mul_if_bit n 1 mant1en1 exp1en1 p)"

definition mul_positive_powers :: "64 word \<Rightarrow> 64 word \<times> int \<Rightarrow> 64 word \<times> int" where
  "mul_positive_powers n p =
     (let p = mul_if_bit n 256 mant1e256 exp1e256 p;
          p = mul_if_bit n 128 mant1e128 exp1e128 p;
          p = mul_if_bit n 64 mant1e64 exp1e64 p;
          p = mul_if_bit n 32 mant1e32 exp1e32 p;
          p = mul_if_bit n 16 mant1e16 exp1e16 p;
          p = mul_if_bit n 8 mant1e8 exp1e8 p;
          p = mul_if_bit n 4 mant1e4 exp1e4 p;
          p = mul_if_bit n 2 mant1e2 exp1e2 p
      in mul_if_bit n 1 mant1e1 exp1e1 p)"

text \<open>
  Lines 511 to 518: \<^verbatim>\<open>if ((mantissa & 0xFFF) > 0x800) { mantissa += (1 << 11);
  if (mantissa < ((uint64_t)1 << 11)) { binexp++; mantissa >>= 1; } }\<close>
\<close>

definition round_mantissa :: "64 word \<times> int \<Rightarrow> 64 word \<times> int" where
  "round_mantissa p =
     (if 0x800 < fst p AND 0xFFF then
        (if fst p + 2048 < 2048 then (drop_bit 1 (fst p + 2048), snd p + 1)
         else (fst p + 2048, snd p))
      else p)"

text \<open>
  Lines 520 to 538, from the test \<^verbatim>\<open>binexp > 1023\<close> on.
  \<^verbatim>\<open>(uint64_t)(binexp + 1023) << 52\<close> converts the \<^verbatim>\<open>int\<close> to 64 bits first.
\<close>

definition assemble :: "bool \<Rightarrow> 64 word \<times> int \<Rightarrow> 64 word" where
  "assemble neg p =
     (if 1023 < snd p then signed_infinity_bits neg
      else (drop_bit 12 (fst p) OR push_bit 52 (word_of_int (snd p + 1023)))
             OR (if neg then 0x8000000000000000 else 0))"

text \<open>Lines 496 to 538: the subnormal range, then rounding and assembly.\<close>

definition round_and_assemble :: "bool \<Rightarrow> 64 word \<times> int \<Rightarrow> 64 word" where
  "round_and_assemble neg p =
     (if snd p \<le> - 1023 then
        (if snd p \<le> - 1023 - 64 then signed_zero_bits neg
         else assemble neg
                (round_mantissa
                   (drop_bit (nat (- snd p - 1023)) (drop_bit 1 (fst p) OR 0x8000000000000000),
                    - 1023)))
      else assemble neg (round_mantissa p))"

text \<open>Lines 427 to 538, for a literal with a digit: the value returned.\<close>

definition convert :: "scanner \<Rightarrow> 64 word" where
  "convert acc =
     (if significant_digits acc = 0 then signed_zero_bits (negative acc)
      else if 0 < sint (fractional_digits acc) then
        (if 512 \<le> sint (fractional_digits acc) then signed_zero_bits (negative acc)
         else round_and_assemble (negative acc)
                (mul_negative_powers (fractional_digits acc) (normalize (mantissa acc))))
      else if decimal_exponent acc \<noteq> 0 then
        (if 512 \<le> decimal_exponent acc then signed_infinity_bits (negative acc)
         else round_and_assemble (negative acc)
                (mul_positive_powers (decimal_exponent acc) (normalize (mantissa acc))))
      else round_and_assemble (negative acc) (normalize (mantissa acc)))"

text \<open>
  What follows a jump: the code under \<^verbatim>\<open>end_of_number\<close> (the check for a literal
  without digits, then the conversion), under the two \<^verbatim>\<open>return_possibly_signed\<close>
  labels, the return of the NaN pattern, and under \<^verbatim>\<open>failed\<close>.
\<close>

fun after_jump :: "jump \<Rightarrow> 64 word \<times> Status \<times> DataStream" where
  "after_jump (failed_label, st, s, acc) = (0, st, s)"
| "after_jump (return_possibly_signed_zero, st, s, acc) = (signed_zero_bits (negative acc), st, s)"
| "after_jump (return_possibly_signed_infinity, st, s, acc) =
     (signed_infinity_bits (negative acc), st, s)"
| "after_jump (return_nan, st, s, acc) = (signed_nan_bits (negative acc), st, s)"
| "after_jump (end_of_number, st, s, acc) =
     (if digits acc = 0 then (0, fail_here st s msg_without_digits, s)
      else (convert acc, st, s))"

text \<open>
  \<^verbatim>\<open>parse_double\<close>: the value returned (as its bit pattern), and the status and the
  window the call leaves behind.
\<close>

definition parse_double :: "Status \<Rightarrow> DataStream \<Rightarrow> 64 word \<times> Status \<times> DataStream" where
  "parse_double st s = after_jump (scan_literal st s)"

text \<open>The three components of what a call leaves behind.\<close>

definition returned_bits :: "64 word \<times> Status \<times> DataStream \<Rightarrow> 64 word" where
  "returned_bits r = fst r"

definition status_after :: "64 word \<times> Status \<times> DataStream \<Rightarrow> Status" where
  "status_after r = fst (snd r)"

definition window_after :: "64 word \<times> Status \<times> DataStream \<Rightarrow> DataStream" where
  "window_after r = snd (snd r)"

section \<open>Notions used in the statements\<close>

text \<open>
  The status after a jump: a jump to \<^verbatim>\<open>failed\<close> has the flag set, any other jump
  carries the status the scanner was entered with.
\<close>

definition status_kept :: "Status \<Rightarrow> jump \<Rightarrow> bool" where
  "status_kept st j = (if fst j = failed_label then failed (fst (snd j)) else fst (snd j) = st)"

text \<open>The assertion under \<^verbatim>\<open>end_of_number\<close>, line 419.\<close>

definition one_active :: "scanner \<Rightarrow> bool" where
  "one_active acc = (sint (fractional_digits acc) \<le> 0 \<or> decimal_exponent acc = 0)"

text \<open>A property of the local variables that holds if the jump goes to \<^verbatim>\<open>end_of_number\<close>.\<close>

definition at_end_of_number :: "(scanner \<Rightarrow> bool) \<Rightarrow> jump \<Rightarrow> bool" where
  "at_end_of_number P j = (fst j = end_of_number \<longrightarrow> P (snd (snd (snd j))))"

text \<open>
  The number a mantissa and binary exponent stand for, as the comment in \<^verbatim>\<open>mulf64\<close> has
  it: \<open>2 ^ e + m * 2 ^ (e - 64)\<close>.
\<close>

definition ext_value :: "64 word \<times> int \<Rightarrow> real" where
  "ext_value p = 2 powi snd p * (1 + real_of_int (uint (fst p)) / 2 ^ 64)"

text \<open>
  The sum \<open>mx + my + floor (mx * my / 2 ^ 64)\<close> as a number: the integer part of the
  fraction \<open>m'\<close> of the exact product, before any carry is taken out.
\<close>

definition mantissa_sum :: "64 word \<Rightarrow> 64 word \<Rightarrow> int" where
  "mantissa_sum mx my = uint mx + uint my + uint mx * uint my div 2 ^ 64"

text \<open>The number for the next mantissa at the same exponent.\<close>

definition ext_value_above :: "64 word \<times> int \<Rightarrow> real" where
  "ext_value_above p = 2 powi snd p * (1 + (real_of_int (uint (fst p)) + 1) / 2 ^ 64)"


text \<open>
  The number a 64-bit IEEE-754 pattern stands for.  Bit 63 is the sign, bits 52 to 62
  the biased exponent, bits 0 to 51 the fraction.
\<close>

definition double_negative :: "64 word \<Rightarrow> bool" where
  "double_negative b = (2 ^ 63 \<le> uint b)"

definition double_exponent :: "64 word \<Rightarrow> int" where
  "double_exponent b = uint b div 2 ^ 52 mod 2 ^ 11"

definition double_fraction :: "64 word \<Rightarrow> int" where
  "double_fraction b = uint b mod 2 ^ 52"

text \<open>Neither an infinity nor a NaN.\<close>

definition double_finite :: "64 word \<Rightarrow> bool" where
  "double_finite b = (double_exponent b \<noteq> 2047)"

definition double_value :: "64 word \<Rightarrow> real" where
  "double_value b =
     (if double_negative b then - 1 else 1) *
     (if double_exponent b = 0 then real_of_int (double_fraction b) * 2 powi (- 1074)
      else real_of_int (2 ^ 52 + double_fraction b) * 2 powi (double_exponent b - 1075))"

text \<open>The number a string of decimal digits stands for, continuing from \<open>v\<close>.\<close>

definition decimal_from :: "int \<Rightarrow> string \<Rightarrow> int" where
  "decimal_from v ds = foldl (\<lambda>v c. 10 * v + uint (digit_value c)) v ds"

definition decimal_value :: "string \<Rightarrow> int" where
  "decimal_value ds = decimal_from 0 ds"

text \<open>
  Correct rounding with halves going toward zero: no finite pattern is nearer to \<open>x\<close>, and
  one that is as near is not smaller in magnitude.
\<close>

definition nearest_double :: "real \<Rightarrow> 64 word \<Rightarrow> bool" where
  "nearest_double x b =
     (double_finite b \<and>
      (\<forall>b'. double_finite b' \<longrightarrow> \<bar>double_value b - x\<bar> \<le> \<bar>double_value b' - x\<bar>))"

definition ties_toward_zero :: "real \<Rightarrow> 64 word \<Rightarrow> bool" where
  "ties_toward_zero x b =
     (\<forall>b'. double_finite b' \<and> \<bar>double_value b' - x\<bar> = \<bar>double_value b - x\<bar>
           \<longrightarrow> \<bar>double_value b\<bar> \<le> \<bar>double_value b'\<bar>)"

text \<open>
  What holds of the counters each time the main loop reads a byte: the mantissa has at
  most \<^verbatim>\<open>significant_digits\<close> decimal digits, and that count is below 20.
\<close>

definition digits_counted :: "scanner \<Rightarrow> bool" where
  "digits_counted acc =
     (0 \<le> significant_digits acc \<and> significant_digits acc \<le> 19
      \<and> uint (mantissa acc) < 10 ^ nat (significant_digits acc))"

text \<open>
  After a digit or the first decimal point the source advances the cursor and tests
  \<^verbatim>\<open>significant_digits >= 20\<close>: the scan goes on in the loop that skips digits or in the
  main loop.
\<close>

definition continue_scan :: "Status \<Rightarrow> DataStream \<Rightarrow> scanner \<Rightarrow> jump" where
  "continue_scan st s acc =
     (if 20 \<le> significant_digits acc then skip_digits st s acc else main_loop st s acc)"

text \<open>What either loop does to the local variables at a digit.\<close>

definition digit_step :: "scanner \<Rightarrow> char \<Rightarrow> scanner" where
  "digit_step acc c =
     (if 20 \<le> significant_digits acc then
        (if sint (fractional_digits acc) < 0
         then acc\<lparr>decimal_exponent := decimal_exponent acc + 1\<rparr> else acc)
      else accumulate_digit acc (digit_value c))"

definition digit_run :: "scanner \<Rightarrow> string \<Rightarrow> scanner" where
  "digit_run acc ds = foldl digit_step acc ds"

text \<open>
  The number of leading digits of \<open>ds\<close> that a 64-bit mantissa holding \<open>v\<close> takes: it
  takes a digit when ten times its number plus the digit is below \<open>2 ^ 64\<close>, and no
  digit after one it does not take.
\<close>

fun taken_from :: "int \<Rightarrow> string \<Rightarrow> nat" where
  "taken_from v [] = 0"
| "taken_from v (c # cs) =
     (if 10 * v + uint (digit_value c) < 2 ^ 64
      then Suc (taken_from (10 * v + uint (digit_value c)) cs) else 0)"

text \<open>
  What the scanner knows about the digits it has taken into the mantissa while it is in
  the main loop.
\<close>

definition mantissa_holds :: "scanner \<Rightarrow> int \<Rightarrow> bool" where
  "mantissa_holds acc v =
     (uint (mantissa acc) = v \<and> 0 \<le> significant_digits acc \<and> significant_digits acc < 20
      \<and> (significant_digits acc = 0) = (v = 0)
      \<and> (significant_digits acc = 0 \<or> 10 ^ nat (significant_digits acc - 1) \<le> v))"

text \<open>
  The local variables \<open>acc'\<close> after a run of digits \<open>ds\<close> that the scanner entered in the
  main loop with the variables \<open>acc\<close>, the mantissa holding \<open>v\<close>.
\<close>

definition run_summary :: "scanner \<Rightarrow> int \<Rightarrow> string \<Rightarrow> scanner \<Rightarrow> bool" where
  "run_summary acc v ds acc' =
     (uint (mantissa acc') = decimal_from v (take (taken_from v ds) ds)
      \<and> negative acc' = negative acc
      \<and> fractional_digits acc' =
          (if sint (fractional_digits acc) < 0 then fractional_digits acc
           else fractional_digits acc + of_nat (taken_from v ds))
      \<and> decimal_exponent acc' =
          (if sint (fractional_digits acc) < 0
           then decimal_exponent acc + of_nat (length ds - taken_from v ds)
           else decimal_exponent acc)
      \<and> 0 \<le> significant_digits acc' \<and> significant_digits acc' \<le> 20
      \<and> (significant_digits acc' = 0) = (decimal_from v (take (taken_from v ds) ds) = 0)
      \<and> ((taken_from v ds = length ds \<and> mantissa_holds acc' (decimal_from v ds))
          \<or> (20 \<le> significant_digits acc' \<and> (\<forall>es. taken_from v (ds @ es) = taken_from v ds)))
      \<and> (\<exists>n. n \<le> length ds \<and> (ds = [] \<or> 1 \<le> n) \<and> digits acc' = digits acc + of_nat n))"

text \<open>
  A decimal literal as the grammar of the specification has it: an optional sign, the
  digits before the point, the digits after the point when there is a point, and an
  exponent when there is one: its marker, its optional sign and its digits.
\<close>

record literal =
  lit_sign :: string
  lit_int :: string
  lit_frac :: "string option"
  lit_exp :: "(char \<times> string \<times> string) option"

definition lit_frac_digits :: "literal \<Rightarrow> string" where
  "lit_frac_digits l = (case lit_frac l of None \<Rightarrow> [] | Some f \<Rightarrow> f)"

definition lit_digits :: "literal \<Rightarrow> string" where
  "lit_digits l = lit_int l @ lit_frac_digits l"

definition digits_text :: "literal \<Rightarrow> string" where
  "digits_text l = lit_int l @ (case lit_frac l of None \<Rightarrow> [] | Some f \<Rightarrow> CHR ''.'' # f)"



definition is_sign :: "string \<Rightarrow> bool" where
  "is_sign s = (s = [] \<or> s = ''+'' \<or> s = ''-'')"

definition all_digits :: "string \<Rightarrow> bool" where
  "all_digits ds = list_all (\<lambda>c. digit_value c \<le> 9) ds"

definition well_formed :: "literal \<Rightarrow> bool" where
  "well_formed l =
     (is_sign (lit_sign l) \<and> all_digits (lit_int l) \<and> all_digits (lit_frac_digits l)
      \<and> lit_digits l \<noteq> []
      \<and> (case lit_exp l of None \<Rightarrow> True
          | Some (m, s, ds) \<Rightarrow>
              (m = CHR ''e'' \<or> m = CHR ''E'') \<and> is_sign s \<and> all_digits ds \<and> ds \<noteq> []))"

text \<open>The exponent written in the literal, 0 when there is none.\<close>

definition lit_exponent :: "literal \<Rightarrow> int" where
  "lit_exponent l =
     (case lit_exp l of None \<Rightarrow> 0
      | Some (m, s, ds) \<Rightarrow> (if s = ''-'' then - decimal_value ds else decimal_value ds))"

text \<open>The number the literal stands for.\<close>

definition literal_value :: "literal \<Rightarrow> real" where
  "literal_value l =
     (if lit_sign l = ''-'' then - 1 else 1) * real_of_int (decimal_value (lit_digits l))
       * 10 powi (lit_exponent l - int (length (lit_frac_digits l)))"

text \<open>
  The digits of the literal that the 64-bit mantissa takes, and the net decimal exponent:
  the power of ten that then scales the mantissa.  It is the exponent written, minus the
  number of digits after the point, plus the number of digits that the mantissa does not
  take.
\<close>

definition mantissa_digits :: "literal \<Rightarrow> string" where
  "mantissa_digits l = take (taken_from 0 (lit_digits l)) (lit_digits l)"


text \<open>The local variables when the scanner has read the sign and the digits of a literal.\<close>

definition after_digits :: "literal \<Rightarrow> scanner" where
  "after_digits l =
     (case lit_frac l of
        None \<Rightarrow> digit_run (initial_scanner\<lparr>negative := (lit_sign l = ''-'')\<rparr>) (lit_int l)
      | Some f \<Rightarrow>
          digit_run
            ((digit_run (initial_scanner\<lparr>negative := (lit_sign l = ''-'')\<rparr>) (lit_int l))
               \<lparr>fractional_digits := 0\<rparr>) f)"

section \<open>Evaluation on concrete input\<close>

lemmas scan_defs = parse_double_def scan_literal_def first_byte_def datastream_fetch_def
  initial_scanner_def digit_value_def mantissa_limit_def accumulate_digit_def parse_exponent_def
  exponent_sign_def end_of_exponent_def parse_infinity_def parse_nan_def word_mismatch_def
  fail_here_def returned_bits_def status_after_def window_after_def

lemmas convert_defs = convert_def normalize_def normalize_step_def round_and_assemble_def
  round_mantissa_def assemble_def signed_zero_bits_def signed_infinity_bits_def
  signed_nan_bits_def

lemmas mul_defs = mul_negative_powers_def mul_positive_powers_def mul_if_bit_def mulf64_def
  umul128_def int32_def
  mant1e256_def mant1e128_def mant1e64_def mant1e32_def mant1e16_def mant1e8_def mant1e4_def
  mant1e2_def mant1e1_def exp1e256_def exp1e128_def exp1e64_def exp1e32_def exp1e16_def
  exp1e8_def exp1e4_def exp1e2_def exp1e1_def
  mant1en256_def mant1en128_def mant1en64_def mant1en32_def mant1en16_def mant1en8_def
  mant1en4_def mant1en2_def mant1en1_def exp1en256_def exp1en128_def exp1en64_def exp1en32_def
  exp1en16_def exp1en8_def exp1en4_def exp1en2_def exp1en1_def

lemmas double_defs = double_negative_def double_exponent_def double_fraction_def
  double_finite_def double_value_def

section \<open>The loops at the end of the window\<close>

text \<open>
  \<^verbatim>\<open>datastream_fetch\<close> leaves the window empty, so each \<^verbatim>\<open>do ... while\<close> loop ends
  when the window does.
\<close>

lemma exponent_loop_Nil:
  "exponent_loop st [] acc ne ae =
     (if failed st then (failed_label, st, [], acc) else end_of_exponent st [] acc ne ae)"
  by (simp add: datastream_fetch_def)
declare exponent_loop.simps(1) [simp del]
declare exponent_loop_Nil [simp]

lemma skip_digits_Nil:
  "skip_digits st [] acc = (if failed st then (failed_label, st, [], acc) else (end_of_number, st, [], acc))"
  by (simp add: datastream_fetch_def)

declare skip_digits.simps(1) [simp del]
declare skip_digits_Nil [simp]

lemma main_loop_Nil:
  "main_loop st [] acc = (if failed st then (failed_label, st, [], acc) else (end_of_number, st, [], acc))"
  by (simp add: datastream_fetch_def)

declare main_loop.simps(1) [simp del]
declare main_loop_Nil [simp]

section \<open>The status is written only on the way to the label failed\<close>

lemma status_kept_end_of_exponent: "status_kept st (end_of_exponent st s acc ne ae)"
  by (simp add: status_kept_def end_of_exponent_def Let_def)

lemma status_kept_exponent_loop: "status_kept st (exponent_loop st s acc ne ae)"
proof (induction s arbitrary: ae)
  case Nil
  show ?case by (simp add: exponent_loop_Nil status_kept_end_of_exponent) (simp add: status_kept_def)
next
  case (Cons ch rest)
  show ?case using Cons.IH
    by (simp add: status_kept_end_of_exponent) (simp add: status_kept_def)
qed

lemma status_kept_parse_exponent: "status_kept st (parse_exponent st s acc)"
  by (cases s) (simp_all add: parse_exponent_def datastream_fetch_def exponent_sign_def
      status_kept_exponent_loop, simp add: status_kept_def fail_here_def)

lemma consume_word_status:
  "failed (fst (datastream_consume_word st s w)) \<or> fst (datastream_consume_word st s w) = st"
proof (induction st s w rule: datastream_consume_word.induct)
  case (1 st s)
  show ?case by simp
next
  case (2 st w word)
  show ?case by (simp add: datastream_fetch_def fail_here_def)
next
  case (3 st ch rest w word)
  then show ?case by (auto simp: word_mismatch_def fail_here_def)
qed

lemma status_kept_parse_infinity: "status_kept st (parse_infinity st s acc)"
  using consume_word_status [of st s "''inf''"]
  by (auto simp: parse_infinity_def status_kept_def split: prod.splits)

lemma status_kept_parse_nan: "status_kept st (parse_nan st s acc)"
  using consume_word_status [of st s "''nan''"]
  by (auto simp: parse_nan_def status_kept_def split: prod.splits)

lemma status_kept_skip_digits: "status_kept st (skip_digits st s acc)"
proof (induction s arbitrary: acc)
  case Nil
  show ?case by (simp add: skip_digits_Nil status_kept_def)
next
  case (Cons ch rest)
  show ?case using Cons.IH
    by (simp add: status_kept_parse_exponent) (simp add: status_kept_def)
qed

lemma status_kept_main_loop: "status_kept st (main_loop st s acc)"
proof (induction s arbitrary: acc)
  case Nil
  show ?case by (simp add: main_loop_Nil status_kept_def)
next
  case (Cons ch rest)
  show ?case using Cons.IH
    by (simp add: status_kept_parse_exponent status_kept_skip_digits status_kept_parse_infinity
        status_kept_parse_nan) (simp add: status_kept_def)
qed

lemma status_kept_first_byte: "status_kept st (first_byte st ch rest)"
  by (simp add: first_byte_def status_kept_main_loop status_kept_parse_infinity status_kept_parse_nan)
    (simp add: status_kept_def fail_here_def)

lemma status_kept_scan_literal: "status_kept st (scan_literal st s)"
  by (cases s) (simp_all add: scan_literal_def datastream_fetch_def status_kept_first_byte,
      simp add: status_kept_def fail_here_def)

section \<open>Error literals\<close>

text \<open>
  C9.  Each of the inputs \<open>""\<close>, \<open>"."\<close>, \<open>"e5"\<close>, \<open>"1e"\<close> and \<open>"-"\<close> leaves
  \<^verbatim>\<open>Status.failed\<close> set, whatever the status held at the call.
\<close>

theorem error_literals_fail:
  "failed (status_after (parse_double st ''''))
   \<and> failed (status_after (parse_double st ''.''))
   \<and> failed (status_after (parse_double st ''e5''))
   \<and> failed (status_after (parse_double st ''1e''))
   \<and> failed (status_after (parse_double st ''-''))"
  by (simp add: scan_defs)

section \<open>The value returned on failure\<close>

text \<open>
  C10.  When a call that starts with \<^verbatim>\<open>Status.failed\<close> clear ends with it set, the
  value returned is the all-zero pattern, that is \<open>+0.0\<close>.
\<close>

theorem failed_returns_zero:
  assumes "\<not> failed st" and "failed (status_after (parse_double st s))"
  shows "returned_bits (parse_double st s) = 0"
proof -
  obtain l st1 s1 acc where j: "scan_literal st s = (l, st1, s1, acc)"
    by (cases "scan_literal st s") auto
  have k: "l \<noteq> failed_label \<Longrightarrow> st1 = st"
    using status_kept_scan_literal [of st s] by (auto simp: status_kept_def j split: if_splits)
  show ?thesis
  proof (cases l)
    case failed_label
    then show ?thesis by (simp add: parse_double_def j returned_bits_def)
  next
    case end_of_number
    then show ?thesis using assms k
      by (simp add: parse_double_def j returned_bits_def status_after_def split: if_splits)
  next
    case return_possibly_signed_zero
    then show ?thesis using assms k
      by (simp add: parse_double_def j returned_bits_def status_after_def)
  next
    case return_possibly_signed_infinity
    then show ?thesis using assms k
      by (simp add: parse_double_def j returned_bits_def status_after_def)
  next
    case return_nan
    then show ?thesis using assms k
      by (simp add: parse_double_def j returned_bits_def status_after_def)
  qed
qed


theorem failed_returns_zero_witness:
  "\<not> failed \<lparr>failed = False, error_message = []\<rparr>
   \<and> failed (status_after (parse_double \<lparr>failed = False, error_message = []\<rparr> ''1e''))
   \<and> returned_bits (parse_double \<lparr>failed = False, error_message = []\<rparr> ''1e'') = 0"
proof -
  have a: "\<not> failed \<lparr>failed = False, error_message = []\<rparr>" by simp
  have b: "failed (status_after (parse_double \<lparr>failed = False, error_message = []\<rparr> ''1e''))"
    by (simp add: scan_defs)
  show ?thesis using a b failed_returns_zero [OF a b] by simp
qed

section \<open>A mismatch inside the words inf and nan\<close>

text \<open>
  C7.  Once \<^verbatim>\<open>Status.failed\<close> is set, the recorded message should stay and the
  processing should stop.  In \<^verbatim>\<open>datastream_consume_word\<close> the branch for a byte that
  differs from the word calls \<^verbatim>\<open>fail_here\<close> and then goes on with the loop (the branch
  for the end of the stream returns).  On the input \<open>ixyz\<close> the byte \<open>x\<close> sets the flag
  with the message about \<open>x\<close> and \<open>n\<close>; the loop then consumes \<open>y\<close> too and writes the
  message about \<open>y\<close> and \<open>f\<close> over the first one.
\<close>

theorem consume_word_goes_on_after_failure:
  "datastream_consume_word \<lparr>failed = False, error_message = []\<rparr> ''ix'' ''in''
     = (\<lparr>failed = True, error_message = msg_unexpected_expected CHR ''x'' CHR ''n''\<rparr>, [])
   \<and> parse_double \<lparr>failed = False, error_message = []\<rparr> ''ixyz''
     = (0, \<lparr>failed = True, error_message = msg_unexpected_expected CHR ''y'' CHR ''f''\<rparr>, ''z'')
   \<and> msg_unexpected_expected CHR ''y'' CHR ''f'' \<noteq> msg_unexpected_expected CHR ''x'' CHR ''n''"
  by (simp add: scan_defs msg_unexpected_expected_def fmt_quoted_def fmt_02x_def hex_digit_def)

section \<open>The cursor after the literal\<close>

text \<open>The input \<open>123abc\<close>: the value is 123, the status is untouched, the cursor is at \<open>a\<close>.\<close>

lemma cursor_after_123abc:
  "parse_double st ''123abc'' = (0x405EC00000000000, st, ''abc'')"
  by (simp add: scan_defs convert_defs)

text \<open>
  C8.  After a successful call the cursor should be at the first byte that cannot extend
  the literal.  When the digits of the exponent no longer fit in 64 bits, the loop over
  them jumps to the return of infinity (or zero) at once, with the cursor on the digit
  that did not fit: on \<open>1e99999999999999999999abc\<close> the call succeeds and leaves
  \<open>9abc\<close>, not \<open>abc\<close>.  (The loop over the digits of the mantissa skips the digits it
  cannot take.)
\<close>

theorem exponent_overflow_leaves_digits:
  "parse_double st ''1e99999999999999999999abc'' = (0x7FF0000000000000, st, ''9abc'')"
  by (simp add: scan_defs convert_defs)

section \<open>The assertion at the label end_of_number\<close>

lemma one_active_end_of_exponent:
  "one_active acc \<Longrightarrow> at_end_of_number one_active (end_of_exponent st s acc ne ae)"
  by (auto simp: at_end_of_number_def one_active_def end_of_exponent_def Let_def)

lemma one_active_exponent_loop:
  "one_active acc \<Longrightarrow> at_end_of_number one_active (exponent_loop st s acc ne ae)"
proof (induction s arbitrary: ae)
  case Nil
  then show ?case using one_active_end_of_exponent [of acc st "[]" ne ae]
    by (simp add: at_end_of_number_def)
next
  case (Cons ch rest)
  then show ?case using one_active_end_of_exponent [of acc st "ch # rest" ne ae]
    by (simp add: at_end_of_number_def)
qed

lemma one_active_parse_exponent:
  "one_active acc \<Longrightarrow> at_end_of_number one_active (parse_exponent st s acc)"
  by (cases s) (simp_all add: parse_exponent_def datastream_fetch_def exponent_sign_def
      one_active_exponent_loop, simp add: at_end_of_number_def)

lemma one_active_skip_digits:
  "one_active acc \<Longrightarrow> at_end_of_number one_active (skip_digits st s acc)"
proof (induction s arbitrary: acc)
  case Nil
  then show ?case by (simp add: at_end_of_number_def)
next
  case (Cons ch rest)
  have a: "one_active (acc\<lparr>fractional_digits := 0\<rparr>)"
    by (simp add: one_active_def)
  have b: "sint (fractional_digits acc) < 0 \<Longrightarrow>
      one_active (acc\<lparr>decimal_exponent := decimal_exponent acc + 1\<rparr>)"
    by (simp add: one_active_def)
  show ?case using Cons.IH [OF a] Cons.IH [OF b] Cons.IH [OF Cons.prems]
      one_active_parse_exponent [OF Cons.prems, of st rest] Cons.prems
    by (simp add: at_end_of_number_def)
qed

lemma one_active_parse_infinity: "at_end_of_number P (parse_infinity st s acc)"
  by (simp add: at_end_of_number_def parse_infinity_def split: prod.splits)

lemma one_active_parse_nan: "at_end_of_number P (parse_nan st s acc)"
  by (simp add: at_end_of_number_def parse_nan_def split: prod.splits)

lemma accumulate_digit_cases:
  "decimal_exponent acc = 0 \<Longrightarrow>
     one_active (accumulate_digit acc dv) \<and>
     (significant_digits (accumulate_digit acc dv) < 20 \<longrightarrow> decimal_exponent (accumulate_digit acc dv) = 0)"
  by (simp add: accumulate_digit_def one_active_def)

lemma one_active_main_loop:
  "decimal_exponent acc = 0 \<Longrightarrow> at_end_of_number one_active (main_loop st s acc)"
proof (induction s arbitrary: acc)
  case Nil
  then show ?case by (simp add: at_end_of_number_def one_active_def)
next
  case (Cons ch rest)
  have oa: "one_active acc" using Cons.prems by (simp add: one_active_def)
  have oa0: "one_active (acc\<lparr>fractional_digits := 0\<rparr>)" by (simp add: one_active_def)
  show ?case
  proof (cases "digit_value ch \<le> 9")
    case True
    then show ?thesis
      using accumulate_digit_cases [OF Cons.prems, of "digit_value ch"]
        Cons.IH [of "accumulate_digit acc (digit_value ch)"]
        one_active_skip_digits [of "accumulate_digit acc (digit_value ch)" st rest]
      by auto
  next
    case False
    then show ?thesis
      using Cons.IH [of "acc\<lparr>fractional_digits := 0\<rparr>"] Cons.prems
        one_active_skip_digits [OF oa0, of st rest] one_active_parse_exponent [OF oa, of st rest]
        one_active_parse_infinity [of one_active st "ch # rest" acc]
        one_active_parse_nan [of one_active st "ch # rest" acc] oa
      by (auto simp: at_end_of_number_def)
  qed
qed

lemma one_active_first_byte: "at_end_of_number one_active (first_byte st ch rest)"
  by (simp add: first_byte_def one_active_main_loop one_active_parse_infinity one_active_parse_nan
      initial_scanner_def) (simp add: at_end_of_number_def)

lemma one_active_scan_literal: "at_end_of_number one_active (scan_literal st s)"
  by (cases s) (simp_all add: scan_literal_def datastream_fetch_def one_active_first_byte,
      simp add: at_end_of_number_def)

text \<open>
  C4.  Whenever the scanner arrives at \<^verbatim>\<open>end_of_number\<close>, \<^verbatim>\<open>fractional_digits <= 0\<close>
  or \<^verbatim>\<open>decimal_exponent == 0\<close>: the conversion tests \<^verbatim>\<open>fractional_digits > 0\<close> first
  and \<^verbatim>\<open>decimal_exponent\<close> otherwise, so the two runs of multiplications by powers of
  ten never both have work to do.
\<close>

theorem end_of_number_assertion:
  assumes "scan_literal st s = (end_of_number, st', s', acc)"
  shows "sint (fractional_digits acc) \<le> 0 \<or> decimal_exponent acc = 0"
  using one_active_scan_literal [of st s] assms
  by (simp add: at_end_of_number_def one_active_def)

theorem end_of_number_assertion_witness:
  "scan_literal \<lparr>failed = False, error_message = []\<rparr> ''12.5''
     = (end_of_number, \<lparr>failed = False, error_message = []\<rparr>, [],
        \<lparr>negative = False, mantissa = 125, digits = 3, significant_digits = 3,
         fractional_digits = 1, decimal_exponent = 0\<rparr>)
   \<and> (sint (fractional_digits \<lparr>negative = False, mantissa = 125, digits = 3, significant_digits = 3,
         fractional_digits = 1, decimal_exponent = 0\<rparr>) \<le> 0
      \<or> decimal_exponent \<lparr>negative = False, mantissa = 125, digits = 3, significant_digits = 3,
         fractional_digits = 1, decimal_exponent = 0\<rparr> = 0)"
proof -
  have a: "scan_literal \<lparr>failed = False, error_message = []\<rparr> ''12.5''
     = (end_of_number, \<lparr>failed = False, error_message = []\<rparr>, [],
        \<lparr>negative = False, mantissa = 125, digits = 3, significant_digits = 3,
         fractional_digits = 1, decimal_exponent = 0\<rparr>)"
    by (simp add: scan_defs)
  show ?thesis using a end_of_number_assertion [OF a] by simp
qed

section \<open>Digits and the mantissa limit\<close>

lemma unat_of_char: "unat (of_char c :: 64 word) = of_char c"
proof (rule of_nat_inverse)
  show "word_of_nat (of_char c) = (of_char c :: 64 word)" by (simp add: of_nat_of_char)
  show "(of_char c :: nat) < 2 ^ LENGTH(64)"
    using nat_of_char_less_256 [of c] by (rule less_trans) simp
qed

lemma digit_value_le_9_iff:
  "digit_value c \<le> 9 \<longleftrightarrow> (48::nat) \<le> of_char c \<and> of_char c \<le> (57::nat)"
proof -
  have lt: "(of_char c :: nat) < 256" by simp
  show ?thesis
  proof (cases "(48::nat) \<le> of_char c")
    case True
    then have "(48 :: 64 word) \<le> of_char c"
      by (simp add: word_le_nat_alt unat_of_char)
    then have "unat (digit_value c) = of_char c - 48"
      by (simp add: digit_value_def unat_sub unat_of_char)
    then show ?thesis using True by (simp add: word_le_nat_alt) arith
  next
    case False
    then have "(of_char c :: 64 word) < 48"
      by (simp add: word_less_nat_alt unat_of_char)
    then have "unat (digit_value c) = 2 ^ 64 + of_char c - 48"
      unfolding digit_value_def using False
      by (simp add: unat_sub_if_size word_size unat_of_char word_less_nat_alt)
    then show ?thesis using False by (simp add: word_le_nat_alt)
  qed
qed

lemma digit_not_special:
  assumes "digit_value c \<le> 9"
  shows "c \<noteq> CHR ''.''" and "c \<noteq> CHR ''e''" and "c \<noteq> CHR ''E''"
  using assms by (auto simp: digit_value_def)

lemma uint_mantissa_limit:
  "dv \<le> 9 \<Longrightarrow> uint (mantissa_limit dv) = (if 6 \<le> uint dv then 1844674407370955160 else 1844674407370955161)"
  by (simp add: mantissa_limit_def word_le_def)

lemma limit_iff_overflow:
  assumes "dv \<le> 9"
  shows "mantissa_limit dv < m \<longleftrightarrow> 2 ^ 64 \<le> 10 * uint m + uint dv"
proof -
  define d where "d = uint dv"
  define x where "x = uint m"
  have d: "0 \<le> d" "d \<le> 9" using assms by (simp_all add: d_def x_def word_le_def)
  have "(if 6 \<le> d then 1844674407370955160 else 1844674407370955161) < x
          \<longleftrightarrow> 18446744073709551616 \<le> 10 * x + d"
    using d by (cases "6 \<le> d") (simp_all, linarith+)
  then show ?thesis
    by (simp add: word_less_def uint_mantissa_limit [OF assms] d_def x_def)
qed

lemma uint_accumulate:
  assumes "dv \<le> 9" and "\<not> mantissa_limit dv < m"
  shows "uint (10 * m + dv) = 10 * uint m + uint dv"
proof -
  have lt: "10 * uint m + uint dv < 2 ^ 64"
    using limit_iff_overflow [OF assms(1), of m] assms(2) by simp
  have ge: "0 \<le> 10 * uint m + uint dv" by simp
  have "uint (10 * m + dv) = (10 * uint m + uint dv) mod 2 ^ 64"
    by (simp add: uint_word_ariths mod_simps)
  then show ?thesis using lt ge by simp
qed




section \<open>The multiplication truncates\<close>

lemma uint_add_carry:
  fixes x y :: "64 word"
  shows "uint (x + y) = uint x + uint y - (if 2 ^ 64 \<le> uint x + uint y then 2 ^ 64 else 0)"
  by (simp add: uint_plus_if')

lemma carry_detect:
  fixes x y :: "64 word"
  shows "x + y < y \<longleftrightarrow> 2 ^ 64 \<le> uint x + uint y"
proof -
  define a where "a = uint x"
  define b where "b = uint y"
  have "0 \<le> a" "a < 2 ^ 64" "0 \<le> b" "b < 2 ^ 64"
    using uint_lt2p [of x] uint_lt2p [of y] by (simp_all add: a_def b_def)
  then have "a + b - (if 2 ^ 64 \<le> a + b then 2 ^ 64 else 0) < b \<longleftrightarrow> 2 ^ 64 \<le> a + b"
    by auto
  then show ?thesis by (simp add: word_less_def uint_add_carry a_def b_def)
qed

lemma hi_bound:
  fixes a b :: int
  assumes "0 \<le> a" "a < 2 ^ 64" "0 \<le> b" "b < 2 ^ 64"
  shows "0 \<le> a * b div 2 ^ 64" and "a * b div 2 ^ 64 < 2 ^ 64"
proof -
  have p0: "0 \<le> a * b" using assms by simp
  have "a * b \<le> (2 ^ 64 - 1) * (2 ^ 64 - 1)"
    using assms by (intro mult_mono) simp_all
  then have p1: "a * b \<le> 340282366920938463426481119284349108225" by simp
  have d: "a * b = 2 ^ 64 * (a * b div 2 ^ 64) + a * b mod 2 ^ 64" by simp
  have m: "0 \<le> a * b mod 2 ^ 64" by simp
  show "0 \<le> a * b div 2 ^ 64" using p0 by (simp add: pos_imp_zdiv_nonneg_iff)
  show "a * b div 2 ^ 64 < 2 ^ 64" using d m p1 by simp
qed

lemma uint_umul128_hi: "uint (snd (umul128 a b)) = uint a * uint b div 2 ^ 64"
proof -
  have "0 \<le> uint a * uint b div 2 ^ 64" "uint a * uint b div 2 ^ 64 < 2 ^ 64"
    using hi_bound [of "uint a" "uint b"] uint_lt2p [of a] uint_lt2p [of b] by simp_all
  then show ?thesis by (simp add: umul128_def uint_word_of_int)
qed

lemma uint_drop_bit_1: "uint (drop_bit 1 (w :: 64 word)) = uint w div 2"
  by (simp add: drop_bit_eq_div uint_div)

lemma drop_bit_1_top_clear: "drop_bit 1 (w :: 64 word) AND 2 ^ 63 = 0"
proof -
  have "\<not> bit (drop_bit 1 w) 63"
    by (auto simp: bit_drop_bit_eq dest: bit_imp_le_length)
  then show ?thesis by (rule and_exp_eq_0_iff_not_bit [THEN iffD2])
qed

lemma inject_top_bit:
  "uint (drop_bit 1 (w :: 64 word) OR 0x8000000000000000) = uint w div 2 + 2 ^ 63"
proof -
  have e: "(0x8000000000000000 :: 64 word) = 2 ^ 63" by simp
  have "drop_bit 1 w OR 2 ^ 63 = drop_bit 1 w + 2 ^ 63"
    using disjunctive_add_eq_or [OF drop_bit_1_top_clear [of w]] by (simp only:)
  then have "uint (drop_bit 1 w OR 0x8000000000000000) = uint (drop_bit 1 w + 2 ^ 63)"
    by (simp only: e)
  moreover have "uint w div 2 < 2 ^ 63" using uint_lt2p [of w] by simp
  moreover have "uint (2 ^ 63 :: 64 word) = 2 ^ 63" by simp
  ultimately show ?thesis
    using uint_add_carry [of "drop_bit 1 w" "2 ^ 63"]
    by (simp only: uint_drop_bit_1) simp
qed

lemma split_carry:
  fixes x c S :: int
  assumes "S = x + c * 2 ^ 64" "0 \<le> x" "x < 2 ^ 64"
  shows "S div 2 ^ 64 = c" and "S mod 2 ^ 64 = x"
  using assms by (simp_all add: div_pos_pos_trivial mod_pos_pos_trivial)

lemma int32_id:
  assumes "- (2 ^ 31) \<le> x" and "x < 2 ^ 31"
  shows "int32 x = x"
proof -
  have "(x + 2 ^ 31) mod 2 ^ 32 = x + 2 ^ 31"
    using assms by (intro mod_pos_pos_trivial) simp_all
  then show ?thesis by (simp add: int32_def)
qed

lemma mulf64_carry_form:
  fixes mx my :: "64 word"
  assumes rg: "- (2 ^ 31) \<le> ex + ey" "ex + ey + 1 < 2 ^ 31"
  defines "S \<equiv> uint mx + uint my + uint mx * uint my div 2 ^ 64"
  shows "S div 2 ^ 64 \<in> {0, 1, 2}"
    and "mulf64 mx ex my ey =
          (if S div 2 ^ 64 = 0 then (word_of_int S, ex + ey)
           else (word_of_int (S mod 2 ^ 64 div 2 + (S div 2 ^ 64 - 1) * 2 ^ 63), ex + ey + 1))"
proof -
  define a where "a = uint mx"
  define b where "b = uint my"
  define h where "h = a * b div 2 ^ 64"
  define hi where "hi = snd (umul128 mx my)"
  define c1 :: int where "c1 = (if 2 ^ 64 \<le> a + b then 1 else 0)"
  define x1 where "x1 = uint (mx + my)"
  define c2 :: int where "c2 = (if 2 ^ 64 \<le> x1 + h then 1 else 0)"
  define x2 where "x2 = uint (mx + my + hi)"
  have ab: "0 \<le> a" "a < 2 ^ 64" "0 \<le> b" "b < 2 ^ 64"
    using uint_lt2p [of mx] uint_lt2p [of my] by (simp_all add: a_def b_def)
  have hb: "0 \<le> h" "h < 2 ^ 64" using hi_bound [OF ab] by (simp_all add: h_def)
  have uhi: "uint hi = h" by (simp add: hi_def h_def a_def b_def uint_umul128_hi)
  have x1: "x1 = a + b - c1 * 2 ^ 64"
    by (simp add: x1_def c1_def a_def b_def uint_add_carry)
  have x2: "x2 = x1 + h - c2 * 2 ^ 64"
    by (simp add: x2_def c2_def x1_def uint_add_carry uhi)
  have x2b: "0 \<le> x2" "x2 < 2 ^ 64" using uint_lt2p [of "mx + my + hi"] by (simp_all add: x2_def)
  have S: "S = x2 + (c1 + c2) * 2 ^ 64"
    by (simp add: S_def x2 x1 h_def a_def b_def algebra_simps)
  have d: "S div 2 ^ 64 = c1 + c2" and m: "S mod 2 ^ 64 = x2"
    using split_carry [OF S x2b] by simp_all
  have d': "S div 18446744073709551616 = c1 + c2" and m': "S mod 18446744073709551616 = x2"
    using d m by simp_all
  have o1: "mx + my < my \<longleftrightarrow> c1 = 1"
    by (simp add: carry_detect c1_def a_def b_def)
  have o2: "mx + my + hi < hi \<longleftrightarrow> c2 = 1"
    by (simp add: carry_detect c2_def x1_def uhi)
  have cs: "c1 = 0 \<or> c1 = 1" "c2 = 0 \<or> c2 = 1" by (simp_all add: c1_def c2_def)
  show "S div 2 ^ 64 \<in> {0, 1, 2}" using cs d by auto
  have w: "word_of_int x2 = mx + my + hi" by (simp add: x2_def)
  have r0: "c1 + c2 = 0 \<Longrightarrow> (word_of_int S :: 64 word) = mx + my + hi"
    using S w by simp
  have half: "0 \<le> x2 div 2" "x2 div 2 < 2 ^ 63" using x2b by simp_all
  have u1: "uint (word_of_int (x2 div 2) :: 64 word) = x2 div 2"
    using half by (simp add: uint_word_of_int mod_pos_pos_trivial)
  have u2: "uint (word_of_int (x2 div 2 + 2 ^ 63) :: 64 word) = x2 div 2 + 2 ^ 63"
    using half by (simp only: uint_word_of_int) (simp add: mod_pos_pos_trivial)
  have d1: "uint (drop_bit 1 (mx + my + hi)) = x2 div 2"
    by (simp only: uint_drop_bit_1 x2_def)
  have d2: "uint (drop_bit 1 (mx + my + hi) OR 0x8000000000000000) = x2 div 2 + 2 ^ 63"
    by (simp only: inject_top_bit x2_def)
  have r1: "(word_of_int (x2 div 2) :: 64 word) = drop_bit 1 (mx + my + hi)"
    by (simp only: word_uint_eq_iff u1 d1)
  have r2: "(word_of_int (x2 div 2 + 2 ^ 63) :: 64 word)
        = drop_bit 1 (mx + my + hi) OR 0x8000000000000000"
    by (simp only: word_uint_eq_iff u2 d2)
  have p1: "push_bit 63 (2 :: 64 word) = 0" by simp
  have p2: "push_bit 63 (3 :: 64 word) = 0x8000000000000000" by simp
  have i1: "int32 (ex + ey) = ex + ey" using rg by (intro int32_id) simp_all
  have i2: "int32 (ex + ey + 1) = ex + ey + 1" using rg by (intro int32_id) simp_all
  show "mulf64 mx ex my ey =
          (if S div 2 ^ 64 = 0 then (word_of_int S, ex + ey)
           else (word_of_int (S mod 2 ^ 64 div 2 + (S div 2 ^ 64 - 1) * 2 ^ 63), ex + ey + 1))"
  proof -
    consider "c1 + c2 = 0" | "c1 + c2 = 1" | "c1 + c2 = 2" using cs by auto
    then show ?thesis
    proof cases
      case 1
      then have "c1 = 0" "c2 = 0" using cs by auto
      then show ?thesis using r0 [OF 1] o1 o2
        by (simp add: mulf64_def Let_def hi_def [symmetric] d' m' i1)
    next
      case 2
      then have "(c1 = 1 \<and> c2 = 0) \<or> (c1 = 0 \<and> c2 = 1)" using cs by auto
      then show ?thesis using o1 o2 r1 p1
        by (auto simp: mulf64_def Let_def hi_def [symmetric] d' m' i1 i2 simp del: push_bit_numeral drop_bit_Suc)
    next
      case 3
      then have "c1 = 1" "c2 = 1" using cs by auto
      then show ?thesis using o1 o2 r2 p2
        by (simp add: mulf64_def Let_def hi_def [symmetric] d' m' i1 i2 del: push_bit_numeral drop_bit_Suc)
    qed
  qed
qed

lemma mulf64_int_bounds:
  fixes mx my :: "64 word"
  assumes rg: "- (2 ^ 31) \<le> ex + ey" "ex + ey + 1 < 2 ^ 31"
  defines "S \<equiv> uint mx + uint my + uint mx * uint my div 2 ^ 64"
  shows "(snd (mulf64 mx ex my ey) = ex + ey \<and> uint (fst (mulf64 mx ex my ey)) = S)
       \<or> (snd (mulf64 mx ex my ey) = ex + ey + 1
           \<and> 2 ^ 64 + 2 * uint (fst (mulf64 mx ex my ey)) \<le> S
           \<and> S < 2 ^ 64 + 2 * uint (fst (mulf64 mx ex my ey)) + 2)"
proof -
  define c where "c = S div 2 ^ 64"
  define x where "x = S mod 2 ^ 64"
  have c: "c \<in> {0, 1, 2}" using mulf64_carry_form(1) [OF rg, of mx my] by (simp add: c_def S_def)
  have x: "0 \<le> x" "x < 2 ^ 64" by (simp_all add: x_def)
  have S: "S = c * 2 ^ 64 + x" by (simp add: c_def x_def)
  have f: "mulf64 mx ex my ey =
          (if c = 0 then (word_of_int S, ex + ey)
           else (word_of_int (x div 2 + (c - 1) * 2 ^ 63), ex + ey + 1))"
    using mulf64_carry_form(2) [OF rg, of mx my] by (simp add: c_def x_def S_def)
  show ?thesis
  proof (cases "c = 0")
    case True
    then have "uint (word_of_int S :: 64 word) = S"
      using S x by (simp add: uint_word_of_int mod_pos_pos_trivial)
    then show ?thesis using f True by simp
  next
    case False
    then have c12: "c = 1 \<or> c = 2" using c by auto
    define k where "k = x div 2 + (c - 1) * 2 ^ 63"
    have k: "0 \<le> k" "k < 2 ^ 64" using c12 x by (auto simp: k_def)
    have u: "uint (word_of_int k :: 64 word) = k"
      using k by (simp add: uint_word_of_int mod_pos_pos_trivial)
    have "2 * (x div 2) \<le> x" "x < 2 * (x div 2) + 2" by simp_all
    then have b: "2 ^ 64 + 2 * k \<le> S" "S < 2 ^ 64 + 2 * k + 2"
      using c12 by (auto simp: S k_def)
    have f': "mulf64 mx ex my ey = (word_of_int k, ex + ey + 1)"
      using f False by (simp only: k_def if_False)
    show ?thesis using b u by (simp add: f')
  qed
qed

lemma real_hi_bounds:
  fixes P :: int
  shows "real_of_int (P div 2 ^ 64) \<le> real_of_int P / 2 ^ 64"
    and "real_of_int P / 2 ^ 64 < real_of_int (P div 2 ^ 64) + 1"
proof -
  have d: "P = 2 ^ 64 * (P div 2 ^ 64) + P mod 2 ^ 64" by simp
  have m: "0 \<le> P mod 2 ^ 64" "P mod 2 ^ 64 < 2 ^ 64" by simp_all
  have r: "real_of_int P = 2 ^ 64 * real_of_int (P div 2 ^ 64) + real_of_int (P mod 2 ^ 64)"
    by (subst d) (simp only: of_int_add of_int_mult, simp)
  have m': "0 \<le> real_of_int (P mod 2 ^ 64)" "real_of_int (P mod 2 ^ 64) < 2 ^ 64"
    using m by (simp_all only: of_int_0_le_iff) (metis of_int_less_iff of_int_numeral of_int_power)
  show "real_of_int (P div 2 ^ 64) \<le> real_of_int P / 2 ^ 64"
    using m'(1) by (simp add: r field_simps)
  show "real_of_int P / 2 ^ 64 < real_of_int (P div 2 ^ 64) + 1"
    using m'(2) by (simp add: r field_simps)
qed

lemma mulf64_brackets_product:
  assumes rg: "- (2 ^ 31) \<le> ex + ey" "ex + ey + 1 < 2 ^ 31"
  shows "ext_value (mulf64 mx ex my ey) \<le> ext_value (mx, ex) * ext_value (my, ey)
   \<and> ext_value (mx, ex) * ext_value (my, ey) < ext_value_above (mulf64 mx ex my ey)"
proof -
  define a where "a = real_of_int (uint mx)"
  define b where "b = real_of_int (uint my)"
  define h where "h = real_of_int (uint mx * uint my div 2 ^ 64)"
  define T where "T = a + b + a * b / 2 ^ 64"
  define k where "k = real_of_int (uint (fst (mulf64 mx ex my ey)))"
  define e where "e = snd (mulf64 mx ex my ey)"
  have hb: "h \<le> a * b / 2 ^ 64" "a * b / 2 ^ 64 < h + 1"
    using real_hi_bounds [of "uint mx * uint my"] by (simp_all add: h_def a_def b_def)
  have prod: "ext_value (mx, ex) * ext_value (my, ey) = 2 powi (ex + ey) * (1 + T / 2 ^ 64)"
    by (simp add: ext_value_def power_int_add T_def a_def b_def field_simps)
  have pos: "0 < (2::real) powi (ex + ey)" by simp
  have cases: "(e = ex + ey \<and> k = a + b + h)
       \<or> (e = ex + ey + 1 \<and> 2 ^ 64 + 2 * k \<le> a + b + h \<and> a + b + h + 1 \<le> 2 ^ 64 + 2 * k + 2)"
  proof -
    let ?S = "uint mx + uint my + uint mx * uint my div 2 ^ 64"
    let ?K = "uint (fst (mulf64 mx ex my ey))"
    have r: "real_of_int ?S = a + b + h" by (simp add: a_def b_def h_def)
    from mulf64_int_bounds [OF rg, of mx my]
    show ?thesis
    proof
      assume "snd (mulf64 mx ex my ey) = ex + ey \<and> ?K = ?S"
      then show ?thesis using r by (simp add: e_def k_def)
    next
      assume A: "snd (mulf64 mx ex my ey) = ex + ey + 1
           \<and> 2 ^ 64 + 2 * ?K \<le> ?S \<and> ?S < 2 ^ 64 + 2 * ?K + 2"
      then have "?S + 1 \<le> 2 ^ 64 + 2 * ?K + 2" by simp
      with A have "real_of_int (2 ^ 64 + 2 * ?K) \<le> real_of_int ?S"
        and "real_of_int (?S + 1) \<le> real_of_int (2 ^ 64 + 2 * ?K + 2)"
        by (simp_all only: of_int_le_iff)
      then show ?thesis using A r by (simp add: e_def k_def)
    qed
  qed
  have val: "ext_value (mulf64 mx ex my ey) = 2 powi e * (1 + k / 2 ^ 64)"
    and abv: "ext_value_above (mulf64 mx ex my ey) = 2 powi e * (1 + (k + 1) / 2 ^ 64)"
    by (simp_all add: ext_value_def ext_value_above_def e_def k_def)
  from cases show ?thesis
  proof
    assume A: "e = ex + ey \<and> k = a + b + h"
    have "1 + k / 2 ^ 64 \<le> 1 + T / 2 ^ 64" using A hb by (simp add: T_def field_simps)
    moreover have "1 + T / 2 ^ 64 < 1 + (k + 1) / 2 ^ 64" using A hb by (simp add: T_def field_simps)
    ultimately show ?thesis using pos A by (simp add: prod val abv)
  next
    assume A: "e = ex + ey + 1 \<and> 2 ^ 64 + 2 * k \<le> a + b + h \<and> a + b + h + 1 \<le> 2 ^ 64 + 2 * k + 2"
    have e2: "(2::real) powi e = 2 powi (ex + ey) * 2" using A by (simp add: power_int_add)
    have lo: "2 ^ 64 + 2 * k \<le> T" using A hb by (simp add: T_def)
    have up: "T < 2 ^ 64 + 2 * k + 2" using A hb by (simp add: T_def)
    have "2 * (1 + k / 2 ^ 64) \<le> 1 + T / 2 ^ 64" using lo by (simp add: field_simps)
    moreover have "1 + T / 2 ^ 64 < 2 * (1 + (k + 1) / 2 ^ 64)" using up by (simp add: field_simps)
    ultimately show ?thesis using pos by (simp add: prod val abv e2 mult.assoc)
  qed
qed

text \<open>
  C2.  For all operands whose exponents add up within the range of the C \<^verbatim>\<open>int\<close> that
  holds the sum (\<open>ex + ey\<close>, and one more for the carry), the pair \<^verbatim>\<open>mulf64\<close> returns
  stands for a number that is at most the exact product, and the exact product is below
  the number for the next mantissa: the product is truncated, never rounded up.  The
  carry out of the 64 bits of the sum of the mantissas and the high half of their product
  is 0, 1 or 2; without a carry the sum is the mantissa and the exponent is \<open>ex + ey\<close>;
  with a carry the exponent is one more and the mantissa is the low 64 bits of the sum
  shifted right by one, with the top bit set when the carry is 2.
\<close>

theorem mulf64_truncated_product:
  assumes "- (2 ^ 31) \<le> ex + ey" and "ex + ey + 1 < 2 ^ 31"
  shows "ext_value (mulf64 mx ex my ey) \<le> ext_value (mx, ex) * ext_value (my, ey)
   \<and> ext_value (mx, ex) * ext_value (my, ey) < ext_value_above (mulf64 mx ex my ey)
   \<and> 0 \<le> mantissa_sum mx my div 2 ^ 64 \<and> mantissa_sum mx my div 2 ^ 64 \<le> 2
   \<and> mulf64 mx ex my ey =
       (if mantissa_sum mx my div 2 ^ 64 = 0 then (word_of_int (mantissa_sum mx my), ex + ey)
        else (word_of_int (mantissa_sum mx my mod 2 ^ 64 div 2
                + (mantissa_sum mx my div 2 ^ 64 - 1) * 2 ^ 63), ex + ey + 1))"
proof -
  have "mantissa_sum mx my div 2 ^ 64 \<in> {0, 1, 2}"
    using mulf64_carry_form(1) [OF assms, of mx my] by (simp only: mantissa_sum_def)
  then have "0 \<le> mantissa_sum mx my div 2 ^ 64 \<and> mantissa_sum mx my div 2 ^ 64 \<le> 2"
    by auto
  moreover have "mulf64 mx ex my ey =
       (if mantissa_sum mx my div 2 ^ 64 = 0 then (word_of_int (mantissa_sum mx my), ex + ey)
        else (word_of_int (mantissa_sum mx my mod 2 ^ 64 div 2
                + (mantissa_sum mx my div 2 ^ 64 - 1) * 2 ^ 63), ex + ey + 1))"
    using mulf64_carry_form(2) [OF assms, of mx my] by (simp only: mantissa_sum_def)
  ultimately show ?thesis using mulf64_brackets_product [OF assms, of mx my] by (simp only: simp_thms)
qed

theorem mulf64_truncated_product_witness:
  "- (2 ^ 31) \<le> (3::int) + 3 \<and> (3::int) + 3 + 1 < 2 ^ 31
   \<and> mantissa_sum 0x4000000000000000 0x4000000000000000 = 0x9000000000000000
   \<and> mulf64 0x4000000000000000 3 0x4000000000000000 3 = (0x9000000000000000, 6)
   \<and> mantissa_sum 0xC000000000000000 0xC000000000000000 = 0x21000000000000000
   \<and> mulf64 0xC000000000000000 3 0xC000000000000000 (- 5) = (0x8800000000000000, - 1)"
proof -
  have a: "- (2 ^ 31) \<le> (3::int) + 3" "(3::int) + 3 + 1 < 2 ^ 31" by simp_all
  have b: "- (2 ^ 31) \<le> (3::int) + - 5" "(3::int) + - 5 + 1 < 2 ^ 31" by simp_all
  have s1: "mantissa_sum 0x4000000000000000 0x4000000000000000 = 0x9000000000000000"
    by (simp add: mantissa_sum_def)
  have s2: "mantissa_sum 0xC000000000000000 0xC000000000000000 = 0x21000000000000000"
    by (simp add: mantissa_sum_def)
  show ?thesis
    using mulf64_truncated_product [OF a, of "0x4000000000000000" "0x4000000000000000"]
      mulf64_truncated_product [OF b, of "0xC000000000000000" "0xC000000000000000"]
    by (simp add: s1 s2)
qed

section \<open>Rounding of the result\<close>

text \<open>
  Two literals on which the value returned is not the correctly rounded one.  For
  \<open>53e33\<close> the pattern returned is farther from \<open>53 * 10 ^ 33\<close> than the next pattern
  is.  The integer \<open>9007199254740995\<close> lies half-way between the doubles
  \<open>9007199254740994\<close> and \<open>9007199254740996\<close>; the pattern returned is the first, whose
  fraction is odd.
\<close>

theorem not_correctly_rounded:
  "returned_bits (parse_double \<lparr>failed = False, error_message = []\<rparr> ''53e33'')
     = 0x47246A3418629EF5
   \<and> double_finite 0x47246A3418629EF6
   \<and> \<bar>double_value 0x47246A3418629EF6 - 53 * 10 ^ 33\<bar>
       < \<bar>double_value 0x47246A3418629EF5 - 53 * 10 ^ 33\<bar>
   \<and> returned_bits (parse_double \<lparr>failed = False, error_message = []\<rparr> ''9007199254740995'')
     = 0x4340000000000001
   \<and> double_value 0x4340000000000001 = 9007199254740994
   \<and> double_value 0x4340000000000002 = 9007199254740996
   \<and> odd (double_fraction 0x4340000000000001) \<and> even (double_fraction 0x4340000000000002)"
proof -
  have a: "returned_bits (parse_double \<lparr>failed = False, error_message = []\<rparr> ''53e33'')
     = 0x47246A3418629EF5"
    by code_simp
  have b: "returned_bits (parse_double \<lparr>failed = False, error_message = []\<rparr> ''9007199254740995'')
     = 0x4340000000000001"
    by code_simp
  have c: "double_finite 0x47246A3418629EF6
   \<and> \<bar>double_value 0x47246A3418629EF6 - 53 * 10 ^ 33\<bar>
       < \<bar>double_value 0x47246A3418629EF5 - 53 * 10 ^ 33\<bar>"
    by (simp add: double_defs)
  have d: "double_value 0x4340000000000001 = 9007199254740994
   \<and> double_value 0x4340000000000002 = 9007199254740996
   \<and> odd (double_fraction 0x4340000000000001) \<and> even (double_fraction 0x4340000000000002)"
    by (simp add: double_defs)
  show ?thesis using a b c d by (simp only: simp_thms)
qed

section \<open>The fields of the assembled pattern\<close>

lemma uint_and_FFF: "uint ((m :: 64 word) AND 0xFFF) = uint m mod 4096"
proof -
  have "(0xFFF :: 64 word) = mask 12" by (simp add: mask_eq_exp_minus_1)
  then have "m AND 0xFFF = word_of_int (uint m mod 2 ^ 12)"
    by (simp only: and_mask_mod_2p)
  moreover have "0 \<le> uint m mod 2 ^ 12" "uint m mod 2 ^ 12 < 2 ^ 64"
    by (simp, rule less_trans [of _ "2 ^ 12"]) simp_all
  ultimately show ?thesis by (simp add: uint_word_of_int mod_pos_pos_trivial)
qed

lemma uint_drop_bit_12: "uint (drop_bit 12 (m :: 64 word)) = uint m div 4096"
  by (simp add: drop_bit_eq_div uint_div)

lemma int_or_push_bit:
  fixes a b :: int
  assumes "0 \<le> a" and "a < 2 ^ n"
  shows "a OR b * 2 ^ n = a + b * 2 ^ n"
proof -
  have t: "take_bit n a = a" using assms by (simp add: take_bit_int_eq_self)
  have "a OR push_bit n b = concat_bit n a b" by (simp add: concat_bit_def t)
  also have "\<dots> = a + push_bit n b" by (simp add: concat_bit_eq t)
  finally show ?thesis by (simp add: push_bit_eq_mult)
qed

lemma uint_push_bit_52:
  assumes "0 \<le> t" and "t < 2 ^ 12"
  shows "uint (push_bit 52 (word_of_int t :: 64 word)) = t * 2 ^ 52"
proof -
  have "push_bit 52 (word_of_int t :: 64 word) = word_of_int (t * 2 ^ 52)"
    by (simp add: push_bit_eq_mult)
  moreover have "0 \<le> t * 2 ^ 52" "t * 2 ^ 52 < 2 ^ 64" using assms by simp_all
  ultimately show ?thesis
    by (simp only: uint_word_of_int) (simp add: mod_pos_pos_trivial)
qed

lemma div_4096_bounds:
  fixes m :: "64 word"
  shows "0 \<le> uint m div 4096" and "uint m div 4096 < 2 ^ 52"
proof -
  have d: "uint m = 4096 * (uint m div 4096) + uint m mod 4096" by simp
  have r: "0 \<le> uint m mod 4096" by simp
  show "0 \<le> uint m div 4096" by (simp add: pos_imp_zdiv_nonneg_iff)
  show "uint m div 4096 < 2 ^ 52" using d r uint_lt2p [of m] by simp
qed

lemma uint_fields:
  fixes m :: "64 word"
  assumes "0 \<le> t" and "t < 2 ^ 11"
  shows "uint ((drop_bit 12 m OR push_bit 52 (word_of_int t)) OR (if neg then 0x8000000000000000 else 0))
           = uint m div 4096 + t * 2 ^ 52 + (if neg then 2 ^ 63 else 0)"
proof -
  define F where "F = uint m div 4096"
  have F: "0 \<le> F" "F < 2 ^ 52" using div_4096_bounds [of m] by (simp_all add: F_def)
  have t12: "t < 2 ^ 12" using assms(2) by simp
  have a: "uint (drop_bit 12 m OR push_bit 52 (word_of_int t :: 64 word)) = F + t * 2 ^ 52"
    using int_or_push_bit [OF F, of t]
    by (simp only: uint_or uint_drop_bit_12 uint_push_bit_52 [OF assms(1) t12] F_def)
  have b: "0 \<le> F + t * 2 ^ 52" "F + t * 2 ^ 52 < 2 ^ 63"
    using F assms by simp_all
  have s: "uint (0x8000000000000000 :: 64 word) = 1 * 2 ^ 63" by simp
  show ?thesis
  proof (cases neg)
    case True
    have "uint ((drop_bit 12 m OR push_bit 52 (word_of_int t)) OR (0x8000000000000000 :: 64 word))
            = (F + t * 2 ^ 52) OR 1 * 2 ^ 63"
      by (simp only: uint_or a [unfolded uint_or] s)
    also have "\<dots> = F + t * 2 ^ 52 + 1 * 2 ^ 63" by (rule int_or_push_bit [OF b])
    finally show ?thesis using True by (simp add: F_def)
  next
    case False
    then show ?thesis using a by (simp add: F_def)
  qed
qed

section \<open>Rounding and assembling a number in the normal range\<close>

lemma split_div_mod:
  fixes x c n :: int
  assumes "0 \<le> x" and "x < n"
  shows "(x + c * n) div n = c" and "(x + c * n) mod n = x"
  using assms by (simp_all add: div_pos_pos_trivial mod_pos_pos_trivial)

lemma assemble_fields:
  assumes "- 1023 \<le> e" and "e \<le> 1023"
  shows "double_negative (assemble neg (m, e)) = neg"
    and "double_exponent (assemble neg (m, e)) = e + 1023"
    and "double_fraction (assemble neg (m, e)) = uint m div 4096"
proof -
  define F where "F = uint m div 4096"
  define t where "t = e + 1023"
  define s :: int where "s = (if neg then 1 else 0)"
  have F: "0 \<le> F" "F < 2 ^ 52" using div_4096_bounds [of m] by (simp_all add: F_def)
  have t: "0 \<le> t" "t < 2 ^ 11" using assms by (simp_all add: t_def)
  have u: "uint (assemble neg (m, e)) = F + t * 2 ^ 52 + s * 2 ^ 63"
    using uint_fields [OF t, of m neg] assms(2)
    by (simp add: assemble_def t_def F_def s_def)
  have s: "s = 0 \<or> s = 1" by (simp add: s_def)
  have lo: "0 \<le> F + t * 2 ^ 52" "F + t * 2 ^ 52 < 2 ^ 63" using F t by simp_all
  show "double_negative (assemble neg (m, e)) = neg"
    using lo s by (auto simp: double_negative_def u s_def)
  have e: "F + t * 2 ^ 52 + s * 2 ^ 63 = F + (t + s * 2 ^ 11) * 2 ^ 52" by simp
  have d: "(F + t * 2 ^ 52 + s * 2 ^ 63) div 2 ^ 52 = t + s * 2 ^ 11"
    by (simp only: e split_div_mod(1) [OF F])
  have "(t + s * 2 ^ 11) mod 2 ^ 11 = t" by (rule split_div_mod(2) [OF t])
  then show "double_exponent (assemble neg (m, e)) = e + 1023"
    by (simp only: double_exponent_def u d) (simp add: t_def)
  have "(F + t * 2 ^ 52 + s * 2 ^ 63) mod 2 ^ 52 = F"
    by (simp only: e split_div_mod(2) [OF F])
  then show "double_fraction (assemble neg (m, e)) = uint m div 4096"
    by (simp only: double_fraction_def u) (simp add: F_def)
qed

lemma round_mantissa_kept:
  fixes m :: "64 word"
  defines "K \<equiv> uint m div 4096" and "L \<equiv> uint m mod 4096"
  shows "round_mantissa (m, e) = (m', e') \<Longrightarrow>
     (if 2048 < L then (if K + 1 < 2 ^ 52 then uint m' div 4096 = K + 1 \<and> e' = e
                        else uint m' div 4096 = 0 \<and> e' = e + 1)
      else uint m' div 4096 = K \<and> e' = e)"
proof -
  assume r: "round_mantissa (m, e) = (m', e')"
  have d: "uint m = 4096 * K + L" by (simp add: K_def L_def)
  have L: "0 \<le> L" "L < 4096" by (simp_all add: L_def)
  have K: "0 \<le> K" "K < 2 ^ 52" using div_4096_bounds [of m] by (simp_all add: K_def)
  have g: "0x800 < m AND 0xFFF \<longleftrightarrow> 2048 < L"
    by (simp add: word_less_def uint_and_FFF L_def)
  have w: "m + 2048 < 2048 \<longleftrightarrow> 2 ^ 64 \<le> uint m + 2048"
    using carry_detect [of m 2048] by simp
  have a: "uint (m + 2048) = uint m + 2048 - (if 2 ^ 64 \<le> uint m + 2048 then 2 ^ 64 else 0)"
    using uint_add_carry [of m 2048] by simp
  show ?thesis
  proof (cases "2048 < L")
    case False
    then show ?thesis using r g by (simp add: round_mantissa_def K_def)
  next
    case True
    show ?thesis
    proof (cases "K + 1 < 2 ^ 52")
      case k: True
      then have nw: "\<not> 2 ^ 64 \<le> uint m + 2048" using d L by simp
      have "uint (m + 2048) = 4096 * (K + 1) + (L - 2048)" using a nw d by simp
      moreover have "0 \<le> L - 2048" "L - 2048 < 4096" using True L by simp_all
      ultimately have "uint (m + 2048) div 4096 = K + 1"
        by (simp add: div_pos_pos_trivial)
      then show ?thesis using r g w nw True k by (auto simp: round_mantissa_def)
    next
      case k: False
      then have K1: "K = 2 ^ 52 - 1" using K by simp
      then have wr: "2 ^ 64 \<le> uint m + 2048" using d True by simp
      have "uint (m + 2048) = L - 2047 - 1" using a wr d K1 by simp
      then have "0 \<le> uint (m + 2048)" "uint (m + 2048) < 4096" using True L by simp_all
      then have "uint (drop_bit 1 (m + 2048)) div 4096 = 0"
        by (simp only: uint_drop_bit_1)
      then show ?thesis using r g w wr True k by (auto simp: round_mantissa_def)
    qed
  qed
qed

section \<open>Normalization is exact\<close>

lemma top_bits_clear:
  fixes p :: "64 word"
  shows "p AND NOT (mask n) = 0 \<longleftrightarrow> uint p < 2 ^ n"
proof -
  have "p AND NOT (mask n) = 0 \<longleftrightarrow> p AND mask n = p"
    by (auto simp: bit_eq_iff bit_simps)
  then show ?thesis by (simp only: mask_eq_iff)
qed

lemma normalize_masks:
  "(0xffffffff00000000 :: 64 word) = NOT (mask 32)"
  "(0xffff000000000000 :: 64 word) = NOT (mask 48)"
  "(0xff00000000000000 :: 64 word) = NOT (mask 56)"
  "(0xf000000000000000 :: 64 word) = NOT (mask 60)"
  "(0xc000000000000000 :: 64 word) = NOT (mask 62)"
  "(0x8000000000000000 :: 64 word) = NOT (mask 63)"
  by (simp_all add: mask_eq_exp_minus_1)

lemma uint_push_bit_small:
  fixes p :: "64 word"
  assumes "uint p * 2 ^ k < 2 ^ 64"
  shows "uint (push_bit k p) = uint p * 2 ^ k"
proof -
  have "uint (push_bit k p) = take_bit LENGTH(64) (push_bit k (uint p))"
    by (rule unsigned_push_bit_eq)
  also have "\<dots> = (uint p * 2 ^ k) mod 2 ^ 64"
    by (simp add: push_bit_eq_mult take_bit_eq_mod)
  also have "\<dots> = uint p * 2 ^ k"
    using assms by (intro mod_pos_pos_trivial) simp_all
  finally show ?thesis .
qed

lemma normalize_step_inv:
  fixes p :: "64 word"
  assumes "uint p = n * 2 ^ s" and "e = 63 - int s" and "2 ^ (64 - 2 * k) \<le> uint p"
    and "0 < k" and "2 * k \<le> 64"
    and "normalize_step (NOT (mask (64 - k))) k (p, e) = (p', e')"
  shows "\<exists>s'. uint p' = n * 2 ^ s' \<and> e' = 63 - int s' \<and> 2 ^ (64 - k) \<le> uint p'"
proof (cases "uint p < 2 ^ (64 - k)")
  case True
  have "uint p * 2 ^ k < 2 ^ (64 - k) * 2 ^ k" using True by simp
  also have "(2::int) ^ (64 - k) * 2 ^ k = 2 ^ 64"
    using assms(5) by (simp flip: power_add)
  finally have lt: "uint p * 2 ^ k < 2 ^ 64" .
  have u: "uint (push_bit k p) = uint p * 2 ^ k" by (rule uint_push_bit_small [OF lt])
  have "(2::int) ^ (64 - 2 * k) * 2 ^ k \<le> uint p * 2 ^ k" using assms(3) by simp
  moreover have "(2::int) ^ (64 - 2 * k) * 2 ^ k = 2 ^ (64 - k)"
    using assms(5) by (simp flip: power_add)
  ultimately have lo: "2 ^ (64 - k) \<le> uint (push_bit k p)" using u by simp
  have r: "p' = push_bit k p" "e' = e - int k"
    using assms(6) True by (simp_all add: normalize_step_def top_bits_clear)
  show ?thesis using lo u assms(1,2) r
    by (intro exI [of _ "s + k"]) (simp add: power_add)
next
  case False
  then have r: "p' = p" "e' = e"
    using assms(6) by (simp_all add: normalize_step_def top_bits_clear)
  show ?thesis using False assms(1,2) r by (intro exI [of _ s]) simp
qed

lemma normalize_exact:
  assumes "m \<noteq> 0" and "normalize m = (m', e)"
  shows "0 \<le> e \<and> e \<le> 63 \<and> 2 ^ 64 + uint m' = uint m * 2 ^ nat (64 - e)"
proof -
  define n where "n = uint m"
  have "uint m \<noteq> 0" using assms(1) by (simp add: uint_0_iff)
  then have n1: "1 \<le> n" using uint_ge_0 [of m] unfolding n_def by linarith
  obtain p1 e1 where s1: "normalize_step (NOT (mask (64 - 32))) 32 (m, 63) = (p1, e1)"
    by (cases "normalize_step (NOT (mask (64 - 32))) 32 (m, 63)") auto
  obtain p2 e2 where s2: "normalize_step (NOT (mask (64 - 16))) 16 (p1, e1) = (p2, e2)"
    by (cases "normalize_step (NOT (mask (64 - 16))) 16 (p1, e1)") auto
  obtain p3 e3 where s3: "normalize_step (NOT (mask (64 - 8))) 8 (p2, e2) = (p3, e3)"
    by (cases "normalize_step (NOT (mask (64 - 8))) 8 (p2, e2)") auto
  obtain p4 e4 where s4: "normalize_step (NOT (mask (64 - 4))) 4 (p3, e3) = (p4, e4)"
    by (cases "normalize_step (NOT (mask (64 - 4))) 4 (p3, e3)") auto
  obtain p5 e5 where s5: "normalize_step (NOT (mask (64 - 2))) 2 (p4, e4) = (p5, e5)"
    by (cases "normalize_step (NOT (mask (64 - 2))) 2 (p4, e4)") auto
  obtain p6 e6 where s6: "normalize_step (NOT (mask (64 - 1))) 1 (p5, e5) = (p6, e6)"
    by (cases "normalize_step (NOT (mask (64 - 1))) 1 (p5, e5)") auto
  have res: "normalize m = (push_bit 1 p6, e6)"
    using s1 s2 s3 s4 s5 s6 by (simp add: normalize_def normalize_masks)
  have i0: "uint m = n * 2 ^ 0" "(63::int) = 63 - int 0" "2 ^ (64 - 2 * 32) \<le> uint m"
    using n1 by (simp_all add: n_def)
  obtain t1 where i1: "uint p1 = n * 2 ^ t1" "e1 = 63 - int t1" "2 ^ 32 \<le> uint p1"
    using normalize_step_inv [OF i0 _ _ s1] by auto
  obtain t2 where i2: "uint p2 = n * 2 ^ t2" "e2 = 63 - int t2" "2 ^ 48 \<le> uint p2"
    using normalize_step_inv [OF i1(1,2) _ _ _ s2] i1(3) by auto
  obtain t3 where i3: "uint p3 = n * 2 ^ t3" "e3 = 63 - int t3" "2 ^ 56 \<le> uint p3"
    using normalize_step_inv [OF i2(1,2) _ _ _ s3] i2(3) by auto
  obtain t4 where i4: "uint p4 = n * 2 ^ t4" "e4 = 63 - int t4" "2 ^ 60 \<le> uint p4"
    using normalize_step_inv [OF i3(1,2) _ _ _ s4] i3(3) by auto
  obtain t5 where i5: "uint p5 = n * 2 ^ t5" "e5 = 63 - int t5" "2 ^ 62 \<le> uint p5"
    using normalize_step_inv [OF i4(1,2) _ _ _ s5] i4(3) by auto
  obtain t6 where i6: "uint p6 = n * 2 ^ t6" "e6 = 63 - int t6" "2 ^ 63 \<le> uint p6"
    using normalize_step_inv [OF i5(1,2) _ _ _ s6] i5(3) by auto
  have t6: "t6 \<le> 63"
  proof (rule ccontr)
    assume "\<not> t6 \<le> 63"
    then have "64 \<le> t6" by simp
    then have "(2::int) ^ 64 \<le> 2 ^ t6" by (intro power_increasing) simp_all
    also have "\<dots> \<le> n * 2 ^ t6" using n1 by simp
    finally show False using i6(1) uint_lt2p [of p6] by simp
  qed
  have "uint (push_bit 1 p6) = take_bit LENGTH(64) (push_bit 1 (uint p6))"
    by (rule unsigned_push_bit_eq)
  also have "\<dots> = (uint p6 * 2) mod 2 ^ 64"
    by (simp add: push_bit_eq_mult take_bit_eq_mod)
  also have "\<dots> = (uint p6 * 2 - 2 ^ 64) mod 2 ^ 64" by (simp add: mod_diff_eq [symmetric])
  also have "\<dots> = uint p6 * 2 - 2 ^ 64"
    using i6(3) uint_lt2p [of p6] by (intro mod_pos_pos_trivial) simp_all
  finally have u: "2 ^ 64 + uint (push_bit 1 p6) = uint p6 * 2" by simp
  from res assms(2) have m': "m' = push_bit 1 p6" and e: "e = e6" by simp_all
  have ee: "nat (64 - e) = Suc t6" using i6(2) e by simp
  have "uint m * 2 ^ nat (64 - e) = uint p6 * 2"
    by (simp only: ee) (simp add: i6(1) n_def)
  moreover have "2 ^ 64 + uint m' = uint p6 * 2" using u by (simp only: m')
  moreover have "0 \<le> e" "e \<le> 63" using t6 i6(2) e by simp_all
  ultimately show ?thesis by simp
qed

section \<open>The value of the assembled pattern\<close>

lemma round_and_assemble_value:
  fixes m :: "64 word"
  assumes "- 1022 \<le> e" and "e \<le> 1022"
  defines "K \<equiv> uint m div 4096" and "L \<equiv> uint m mod 4096"
  shows "double_finite (round_and_assemble neg (m, e))"
    and "double_negative (round_and_assemble neg (m, e)) = neg"
    and "double_value (round_and_assemble neg (m, e)) =
           (if neg then - 1 else 1) *
           (real_of_int (2 ^ 52 + K + (if 2048 < L then 1 else 0)) * 2 powi (e - 52))"
proof -
  obtain m' e' where r: "round_mantissa (m, e) = (m', e')"
    by (cases "round_mantissa (m, e)") auto
  have ra: "round_and_assemble neg (m, e) = assemble neg (m', e')"
    using assms(1) r by (simp add: round_and_assemble_def)
  define F where "F = uint m' div 4096"
  have k: "if 2048 < L then (if K + 1 < 2 ^ 52 then F = K + 1 \<and> e' = e else F = 0 \<and> e' = e + 1)
      else F = K \<and> e' = e"
    using round_mantissa_kept [OF r] by (simp add: K_def L_def F_def)
  have K: "0 \<le> K" "K < 2 ^ 52" using div_4096_bounds [of m] by (simp_all add: K_def)
  have e': "e' = e \<or> e' = e + 1" using k by (auto split: if_splits)
  then have er: "- 1023 \<le> e'" "e' \<le> 1023" using assms(1,2) by auto
  have f: "double_negative (assemble neg (m', e')) = neg"
    "double_exponent (assemble neg (m', e')) = e' + 1023"
    "double_fraction (assemble neg (m', e')) = F"
    using assemble_fields [OF er, of neg m'] by (simp_all add: F_def)
  have ne: "e' + 1023 \<noteq> 0" "e' + 1023 \<noteq> 2047" using e' assms(1,2) by auto
  show "double_finite (round_and_assemble neg (m, e))"
    using ne by (simp add: double_finite_def ra f)
  show "double_negative (round_and_assemble neg (m, e)) = neg"
    by (simp add: ra f)
  have v: "double_value (assemble neg (m', e')) =
      (if neg then - 1 else 1) * (real_of_int (2 ^ 52 + F) * 2 powi (e' - 52))"
    using ne by (simp add: double_value_def f)
  have "real_of_int (2 ^ 52 + F) * 2 powi (e' - 52)
      = real_of_int (2 ^ 52 + K + (if 2048 < L then 1 else 0)) * 2 powi (e - 52)"
  proof (cases "2048 < L \<and> \<not> K + 1 < 2 ^ 52")
    case True
    then have F0: "F = 0" and e1: "e' = e + 1" and K1: "K = 2 ^ 52 - 1"
      using k K by (auto split: if_splits)
    have "(2::real) powi (e + 1 - 52) = 2 powi (e - 52) * 2"
      using power_int_add [of "2::real" "e - 52" 1] by (simp add: algebra_simps)
    then show ?thesis using True by (simp add: F0 e1 K1)
  next
    case False
    then have "F = K + (if 2048 < L then 1 else 0)" and "e' = e"
      using k by (auto split: if_splits)
    then show ?thesis by simp
  qed
  then show "double_value (round_and_assemble neg (m, e)) =
           (if neg then - 1 else 1) *
           (real_of_int (2 ^ 52 + K + (if 2048 < L then 1 else 0)) * 2 powi (e - 52))"
    by (simp only: ra v)
qed

section \<open>The doubles around a number\<close>

lemma double_value_grid:
  "\<exists>M j. \<bar>double_value b\<bar> = real_of_int M * 2 powi j \<and> 0 \<le> M \<and> M < 2 ^ 53 \<and> - 1074 \<le> j"
proof -
  define F where "F = double_fraction b"
  define E where "E = double_exponent b"
  have F: "0 \<le> F" "F < 2 ^ 52" by (simp_all add: F_def double_fraction_def)
  have E: "0 \<le> E" by (simp add: E_def double_exponent_def)
  show ?thesis
  proof (cases "E = 0")
    case True
    have "\<bar>double_value b\<bar> = real_of_int F * 2 powi (- 1074)"
      using True F by (simp add: double_value_def E_def [symmetric] F_def [symmetric] abs_mult)
    then show ?thesis using F by (intro exI [of _ F] exI [of _ "- 1074"]) simp
  next
    case False
    have "\<bar>double_value b\<bar> = real_of_int (2 ^ 52 + F) * 2 powi (E - 1075)"
      using False F by (simp add: double_value_def E_def [symmetric] F_def [symmetric] abs_mult)
    then show ?thesis using F E False
      by (intro exI [of _ "2 ^ 52 + F"] exI [of _ "E - 1075"]) simp
  qed
qed

lemma no_double_between:
  fixes Q M k j :: int
  assumes "2 ^ 52 \<le> Q" and "0 \<le> M" and "M < 2 ^ 53"
    and "real_of_int Q * 2 powi k < real_of_int M * 2 powi j"
    and "real_of_int M * 2 powi j < real_of_int (Q + 1) * 2 powi k"
  shows False
proof (cases "k \<le> j")
  case True
  define n where "n = nat (j - k)"
  have "(2::real) powi j = 2 powi k * 2 powi (j - k)"
    using power_int_add [of "2::real" k "j - k"] by simp
  also have "(2::real) powi (j - k) = 2 ^ n" using True by (simp add: n_def power_int_def)
  finally have w: "(2::real) powi j = 2 powi k * 2 ^ n" .
  have u: "0 < (2::real) powi k" by simp
  have "real_of_int Q * 2 powi k < real_of_int (M * 2 ^ n) * 2 powi k"
    using assms(4) by (simp add: w algebra_simps)
  then have a: "Q < M * 2 ^ n" using u by (simp only: mult_less_cancel_right_pos of_int_less_iff)
  have "real_of_int (M * 2 ^ n) * 2 powi k < real_of_int (Q + 1) * 2 powi k"
    using assms(5) by (simp add: w algebra_simps)
  then have b: "M * 2 ^ n < Q + 1" using u by (simp only: mult_less_cancel_right_pos of_int_less_iff)
  show False using a b by simp
next
  case False
  define n where "n = nat (k - j)"
  have n1: "1 \<le> n" using False by (simp add: n_def)
  have "(2::real) powi k = 2 powi j * 2 powi (k - j)"
    using power_int_add [of "2::real" j "k - j"] by simp
  also have "(2::real) powi (k - j) = 2 ^ n" using False by (simp add: n_def power_int_def)
  finally have w: "(2::real) powi k = 2 powi j * 2 ^ n" .
  have u: "0 < (2::real) powi j" by simp
  have "real_of_int (Q * 2 ^ n) * 2 powi j < real_of_int M * 2 powi j"
    using assms(4) by (simp add: w algebra_simps)
  then have a: "Q * 2 ^ n < M" using u by (simp only: mult_less_cancel_right_pos of_int_less_iff)
  have "(2::int) ^ 1 \<le> 2 ^ n" using n1 by (intro power_increasing) simp_all
  then have "Q * 2 \<le> Q * 2 ^ n" using assms(1) by (intro mult_left_mono) simp_all
  then show False using a assms(1,3) by simp
qed

lemma nearest_on_grid:
  fixes Q L k M j :: int and v :: real
  assumes "2 ^ 52 \<le> Q" and "Q < 2 ^ 53" and "0 \<le> L" and "L < 4096"
    and "\<bar>v\<bar> = real_of_int M * 2 powi j" and "0 \<le> M" and "M < 2 ^ 53"
  defines "x \<equiv> (real_of_int Q + real_of_int L / 4096) * 2 powi k"
    and "R \<equiv> real_of_int (Q + (if 2048 < L then 1 else 0)) * 2 powi k"
  shows "\<bar>R - x\<bar> \<le> \<bar>v - x\<bar>"
    and "\<bar>v - x\<bar> = \<bar>R - x\<bar> \<Longrightarrow> R \<le> \<bar>v\<bar>"
proof -
  define u :: real where "u = 2 powi k"
  define lo where "lo = real_of_int Q * u"
  define t where "t = real_of_int L / 4096 * u"
  have u: "0 < u" by (simp add: u_def)
  have t: "0 \<le> t" "t < u" using assms(3,4) u by (simp_all add: t_def)
  have x: "x = lo + t" by (simp add: x_def lo_def t_def u_def algebra_simps)
  have lo0: "0 < lo" using assms(1) u by (simp add: lo_def)
  have half: "2048 < L \<longleftrightarrow> u < 2 * t" using u by (simp add: t_def)
  have R: "R = (if 2048 < L then lo + u else lo)"
    by (simp add: R_def lo_def u_def algebra_simps)
  have gap: "\<bar>v\<bar> \<le> lo \<or> lo + u \<le> \<bar>v\<bar>"
  proof (rule ccontr)
    assume "\<not> (\<bar>v\<bar> \<le> lo \<or> lo + u \<le> \<bar>v\<bar>)"
    then have "real_of_int Q * 2 powi k < real_of_int M * 2 powi j"
      and "real_of_int M * 2 powi j < real_of_int (Q + 1) * 2 powi k"
      by (simp_all add: assms(5) lo_def u_def algebra_simps)
    then show False by (rule no_double_between [OF assms(1,6,7)])
  qed
  then have side: "v \<le> lo \<or> lo + u \<le> v" using lo0 u by (auto simp: abs_if split: if_splits)
  show "\<bar>R - x\<bar> \<le> \<bar>v - x\<bar>"
    using side t u half by (cases "2048 < L") (auto simp: R x abs_if)
  show "R \<le> \<bar>v\<bar>" if "\<bar>v - x\<bar> = \<bar>R - x\<bar>"
    using that side t u half lo0 by (cases "2048 < L") (auto simp: R x abs_if split: if_splits)
qed

section \<open>The assertions of the source\<close>

text \<open>
  The \<^verbatim>\<open>assert\<close> statements are not steps of the model.  The one in
  \<^verbatim>\<open>datastream_fetch\<close> holds since every call passes the empty window, and the two
  before the assembly repeat the tests above them.  The one under \<^verbatim>\<open>failed\<close> is
  \<open>status_kept_scan_literal\<close>, and the one under \<^verbatim>\<open>end_of_number\<close> is shown above.
  The remaining one is \<^verbatim>\<open>assert(significant_digits == 19)\<close> in the branch of the mantissa
  limit: \<open>digits_counted\<close> holds after the \<^verbatim>\<open>switch\<close> on the first byte, every turn
  of the main loop that stays in the loop keeps it, and it gives the assertion.
\<close>

lemma digits_counted_initial:
  "digits_counted initial_scanner"
  "digits_counted (initial_scanner\<lparr>negative := True\<rparr>)"
  "digits_counted (initial_scanner\<lparr>digits := 1\<rparr>)"
  "digits_counted (initial_scanner\<lparr>fractional_digits := 0\<rparr>)"
  by (simp_all add: digits_counted_def initial_scanner_def)

lemma digits_counted_first_digit:
  assumes "(49::nat) \<le> of_char ch" and "of_char ch \<le> (57::nat)"
  shows "digits_counted
           (initial_scanner\<lparr>mantissa := digit_value ch, digits := 1, significant_digits := 1\<rparr>)"
proof -
  have "digit_value ch \<le> 9" using assms by (simp add: digit_value_le_9_iff)
  then have "uint (digit_value ch) \<le> 9" by (simp add: word_le_def)
  then show ?thesis by (simp add: digits_counted_def initial_scanner_def)
qed

lemma digits_counted_point:
  "digits_counted acc \<Longrightarrow> digits_counted (acc\<lparr>fractional_digits := 0\<rparr>)"
  by (simp add: digits_counted_def)

lemma digits_counted_accumulate:
  assumes "digits_counted acc" and "dv \<le> 9"
    and "significant_digits (accumulate_digit acc dv) < 20"
  shows "digits_counted (accumulate_digit acc dv)"
proof -
  define m where "m = uint (mantissa acc)"
  define d where "d = uint dv"
  define k where "k = nat (significant_digits acc)"
  have sd: "0 \<le> significant_digits acc" "significant_digits acc \<le> 19" and m: "m < 10 ^ k"
    using assms(1) by (simp_all add: digits_counted_def m_def k_def)
  have d: "0 \<le> d" "d \<le> 9" using assms(2) by (simp_all add: d_def word_le_def)
  have m0: "0 \<le> m" by (simp add: m_def)
  have nl: "\<not> mantissa_limit dv < mantissa acc"
    using assms(3) by (auto simp: accumulate_digit_def)
  have u: "uint (10 * mantissa acc + dv) = 10 * m + d"
    using uint_accumulate [OF assms(2) nl] by (simp add: m_def d_def)
  have a: "accumulate_digit acc dv =
             acc\<lparr>digits := digits acc + 1,
                 mantissa := 10 * mantissa acc + dv,
                 significant_digits :=
                   (if dv \<noteq> 0 \<or> significant_digits acc \<noteq> 0 then significant_digits acc + 1
                    else significant_digits acc),
                 fractional_digits :=
                   (if 0 \<le> sint (fractional_digits acc) then fractional_digits acc + 1
                    else fractional_digits acc)\<rparr>"
    using nl by (simp add: accumulate_digit_def)
  have um': "uint (mantissa (accumulate_digit acc dv)) = 10 * m + d"
    using u by (simp add: a)
  have sd': "significant_digits (accumulate_digit acc dv) =
               (if dv \<noteq> 0 \<or> significant_digits acc \<noteq> 0 then significant_digits acc + 1
                else significant_digits acc)"
    by (simp add: a)
  show ?thesis
  proof (cases "dv \<noteq> 0 \<or> significant_digits acc \<noteq> 0")
    case True
    then have s: "significant_digits (accumulate_digit acc dv) = significant_digits acc + 1"
      unfolding sd' by simp
    have n: "nat (significant_digits acc + 1) = Suc k" using sd by (simp add: k_def)
    have "10 * m + d < 10 * 10 ^ k" using m d by linarith
    then have "uint (mantissa (accumulate_digit acc dv)) < 10 ^ Suc k"
      by (simp add: um')
    then show ?thesis using s n sd assms(3) by (simp add: digits_counted_def)
  next
    case False
    then have z: "dv = 0" "significant_digits acc = 0" by simp_all
    have "m = 0" using m m0 z(2) by (simp add: k_def)
    moreover have "d = 0" using z(1) by (simp add: d_def)
    ultimately have um: "uint (mantissa (accumulate_digit acc dv)) = 0"
      using um' by simp
    have s: "significant_digits (accumulate_digit acc dv) = 0"
      unfolding sd' using z by simp
    show ?thesis unfolding digits_counted_def s um by simp
  qed
qed

lemma limit_needs_19_digits:
  assumes "digits_counted acc" and "dv \<le> 9" and "mantissa_limit dv < mantissa acc"
  shows "significant_digits acc = 19"
proof (rule ccontr)
  assume "significant_digits acc \<noteq> 19"
  then have k: "nat (significant_digits acc) \<le> 18"
    using assms(1) unfolding digits_counted_def by arith
  have "(10::int) ^ nat (significant_digits acc) \<le> 10 ^ 18"
    using k by (rule power_increasing) simp
  then have lt: "uint (mantissa acc) < 10 ^ 18"
    using assms(1) by (simp add: digits_counted_def)
  have "2 ^ 64 \<le> 10 * uint (mantissa acc) + uint dv"
    using limit_iff_overflow [OF assms(2), of "mantissa acc"] assms(3) by simp
  moreover have "uint dv \<le> 9" using assms(2) by (simp add: word_le_def)
  ultimately show False using lt by simp
qed

section \<open>The two loops over a run of digits\<close>

lemma digit_in_range:
  assumes "digit_value c \<le> 9"
  shows "\<not> ((of_char c :: nat) < 48 \<or> 57 < (of_char c :: nat))"
  using assms by (auto simp: digit_value_le_9_iff)

lemma continue_scan_digit:
  assumes "digit_value c \<le> 9"
  shows "continue_scan st (c # rest) acc = continue_scan st rest (digit_step acc c)"
proof (cases "20 \<le> significant_digits acc")
  case True
  then show ?thesis
    using digit_not_special [OF assms] digit_in_range [OF assms]
    by (simp add: continue_scan_def digit_step_def)
next
  case False
  then show ?thesis using assms by (simp add: continue_scan_def digit_step_def)
qed

lemma digit_run_simps [simp]:
  "digit_run acc [] = acc"
  "digit_run acc (c # ds) = digit_run (digit_step acc c) ds"
  by (simp_all add: digit_run_def)

lemma digit_run_append: "digit_run acc (ds @ es) = digit_run (digit_run acc ds) es"
  by (simp add: digit_run_def)

lemma continue_scan_digits:
  assumes "\<forall>c\<in>set ds. digit_value c \<le> 9"
  shows "continue_scan st (ds @ rest) acc = continue_scan st rest (digit_run acc ds)"
  using assms
proof (induction ds arbitrary: acc)
  case Nil
  show ?case by simp
next
  case (Cons c ds)
  then show ?case by (simp add: continue_scan_digit)
qed

lemma continue_scan_point:
  assumes "sint (fractional_digits acc) < 0"
  shows "continue_scan st (CHR ''.'' # rest) acc
           = continue_scan st rest (acc\<lparr>fractional_digits := 0\<rparr>)"
  using assms by (simp add: continue_scan_def digit_value_def)

lemma continue_scan_second_point:
  assumes "0 \<le> sint (fractional_digits acc)"
  shows "continue_scan st (CHR ''.'' # rest) acc = (end_of_number, st, CHR ''.'' # rest, acc)"
  using assms by (simp add: continue_scan_def digit_value_def)

lemma continue_scan_end:
  "continue_scan st [] acc =
     (if failed st then (failed_label, st, [], acc) else (end_of_number, st, [], acc))"
  by (simp add: continue_scan_def)


lemma scan_literal_sign:
  assumes "sg = ''+'' \<or> sg = ''-''"
  shows "scan_literal st (sg @ s)
           = continue_scan st s (initial_scanner\<lparr>negative := (sg = ''-'')\<rparr>)"
  using assms by (auto simp: scan_literal_def first_byte_def continue_scan_def initial_scanner_def)

lemma first_digit_not_sign:
  assumes "digit_value c \<le> 9"
  shows "c \<noteq> CHR ''-''" and "c \<noteq> CHR ''+''" and "c \<noteq> CHR ''i''" and "c \<noteq> CHR ''n''"
  using assms by (auto simp: digit_value_def)

lemma first_byte_digit:
  assumes "digit_value c \<le> 9"
  shows "first_byte st c s = continue_scan st s (digit_step initial_scanner c)"
proof -
  have r: "(48::nat) \<le> of_char c" "of_char c \<le> (57::nat)"
    using assms by (simp_all add: digit_value_le_9_iff)
  have e: "(of_char c :: nat) = of_char CHR ''0'' \<longleftrightarrow> c = CHR ''0''"
    by (rule of_char_eq_iff)
  show ?thesis
  proof (cases "c = CHR ''0''")
    case True
    then show ?thesis
      by (simp add: first_byte_def continue_scan_def digit_step_def accumulate_digit_def
          initial_scanner_def digit_value_def mantissa_limit_def)
  next
    case False
    then have "of_char c \<noteq> (48::nat)" using e by simp
    then have n: "(49::nat) \<le> of_char c" using r(1) by simp
    have "(48 :: 64 word) < of_char c"
      using n by (simp add: word_less_nat_alt unat_of_char)
    then have nz: "digit_value c \<noteq> 0" by (auto simp: digit_value_def)
    have l: "\<not> mantissa_limit (digit_value c) < 0" by simp
    show ?thesis
      using False n r(2) first_digit_not_sign [OF assms] nz l
      by (simp add: first_byte_def continue_scan_def digit_step_def accumulate_digit_def
          initial_scanner_def)
  qed
qed

lemma scan_literal_start:
  assumes "sg = [] \<or> sg = ''+'' \<or> sg = ''-''"
    and "body \<noteq> []" and "digit_value (hd body) \<le> 9 \<or> hd body = CHR ''.''"
  shows "scan_literal st (sg @ body)
           = continue_scan st body (initial_scanner\<lparr>negative := (sg = ''-'')\<rparr>)"
proof (cases "sg = []")
  case False
  then show ?thesis using assms(1) scan_literal_sign [of sg st body] by simp
next
  case True
  obtain c s where b: "body = c # s" using assms(2) by (cases body) auto
  have i: "initial_scanner\<lparr>negative := False\<rparr> = initial_scanner"
    by (simp add: initial_scanner_def)
  have z: "sint (fractional_digits initial_scanner) < 0" by (simp add: initial_scanner_def)
  show ?thesis
  proof (cases "digit_value c \<le> 9")
    case d: True
    show ?thesis
      using first_byte_digit [OF d, of st s] continue_scan_digit [OF d, of st s initial_scanner]
      by (simp add: True b i scan_literal_def)
  next
    case d: False
    then have p: "c = CHR ''.''" using assms(3) b by simp
    show ?thesis
      using continue_scan_point [OF z, of st s]
      by (simp add: True b i p scan_literal_def first_byte_def continue_scan_def
          initial_scanner_def)
  qed
qed

section \<open>The local variables after a run of digits\<close>

lemma sint_succ:
  fixes x :: "64 word"
  assumes "0 \<le> sint x" and "sint x + 1 < 2 ^ 63"
  shows "sint (x + 1) = sint x + 1"
proof -
  have "x + 1 = word_of_int (sint x + 1)" by simp
  then have "sint (x + 1) = (sint x + 1 + 2 ^ 63) mod 2 ^ 64 - 2 ^ 63"
    by (simp only: int_word_sint) simp
  moreover have "(sint x + 1 + 2 ^ 63) mod 2 ^ 64 = sint x + 1 + 2 ^ 63"
    using assms by (intro mod_pos_pos_trivial) simp_all
  ultimately show ?thesis by simp
qed

lemma decimal_from_simps [simp]:
  "decimal_from v [] = v"
  "decimal_from v (c # ds) = decimal_from (10 * v + uint (digit_value c)) ds"
  by (simp_all add: decimal_from_def)

lemma decimal_from_append: "decimal_from v (ds @ es) = decimal_from (decimal_from v ds) es"
  by (simp add: decimal_from_def)

lemma digit_run_stopped:
  assumes "20 \<le> significant_digits acc"
  shows "digit_run acc ds =
           (if sint (fractional_digits acc) < 0
            then acc\<lparr>decimal_exponent := decimal_exponent acc + of_nat (length ds)\<rparr> else acc)"
  using assms
proof (induction ds arbitrary: acc)
  case Nil
  show ?case by simp
next
  case (Cons c ds)
  have s: "20 \<le> significant_digits (digit_step acc c)"
    using Cons.prems by (simp add: digit_step_def)
  show ?case using Cons.IH [OF s] Cons.prems
    by (simp add: digit_step_def algebra_simps)
qed

lemma taken_from_full:
  assumes "10 ^ 19 \<le> v"
  shows "taken_from v ds = 0"
proof (cases ds)
  case Nil
  then show ?thesis by simp
next
  case (Cons c cs)
  define d where "d = uint (digit_value c)"
  have "0 \<le> d" by (simp add: d_def)
  then have "\<not> 10 * v + d < 2 ^ 64" using assms by simp
  then have "\<not> 10 * v + uint (digit_value c) < 2 ^ 64" unfolding d_def .
  then show ?thesis unfolding Cons by (simp only: taken_from.simps if_False)
qed

lemma accumulate_fits:
  assumes "dv \<le> 9" and "uint (mantissa acc) = v" and "10 * v + uint dv < 2 ^ 64"
  shows "accumulate_digit acc dv =
           acc\<lparr>digits := digits acc + 1, mantissa := 10 * mantissa acc + dv,
               significant_digits :=
                 (if dv \<noteq> 0 \<or> significant_digits acc \<noteq> 0 then significant_digits acc + 1
                  else significant_digits acc),
               fractional_digits :=
                 (if 0 \<le> sint (fractional_digits acc) then fractional_digits acc + 1
                  else fractional_digits acc)\<rparr>"
    and "uint (10 * mantissa acc + dv) = 10 * v + uint dv"
proof -
  have g: "\<not> mantissa_limit dv < mantissa acc"
    using limit_iff_overflow [OF assms(1), of "mantissa acc"] assms(2,3) by simp
  show "uint (10 * mantissa acc + dv) = 10 * v + uint dv"
    using uint_accumulate [OF assms(1) g] assms(2) by simp
  show "accumulate_digit acc dv =
           acc\<lparr>digits := digits acc + 1, mantissa := 10 * mantissa acc + dv,
               significant_digits :=
                 (if dv \<noteq> 0 \<or> significant_digits acc \<noteq> 0 then significant_digits acc + 1
                  else significant_digits acc),
               fractional_digits :=
                 (if 0 \<le> sint (fractional_digits acc) then fractional_digits acc + 1
                  else fractional_digits acc)\<rparr>"
    using g by (simp add: accumulate_digit_def)
qed

lemma accumulate_limit:
  assumes "dv \<le> 9" and "uint (mantissa acc) = v" and "\<not> 10 * v + uint dv < 2 ^ 64"
  shows "accumulate_digit acc dv =
           acc\<lparr>digits := digits acc + 1, significant_digits := 20,
               decimal_exponent :=
                 (if sint (fractional_digits acc) < 0 then decimal_exponent acc + 1
                  else decimal_exponent acc)\<rparr>"
proof -
  have g: "mantissa_limit dv < mantissa acc"
    using limit_iff_overflow [OF assms(1), of "mantissa acc"] assms(2,3) by simp
  show ?thesis using g by (simp add: accumulate_digit_def)
qed

lemma holds_step:
  assumes "mantissa_holds acc v" and "dv \<le> 9" and "10 * v + uint dv < 2 ^ 64"
  defines "s \<equiv> significant_digits (accumulate_digit acc dv)"
  shows "uint (mantissa (accumulate_digit acc dv)) = 10 * v + uint dv"
    and "0 \<le> s" and "s \<le> 20" and "(s = 0) = (10 * v + uint dv = 0)"
    and "s = 0 \<or> 10 ^ nat (s - 1) \<le> 10 * v + uint dv"
proof -
  have m: "uint (mantissa acc) = v" using assms(1) by (simp add: mantissa_holds_def)
  note a = accumulate_fits [OF assms(2) m assms(3)]
  have sd: "0 \<le> significant_digits acc" "significant_digits acc < 20"
    "(significant_digits acc = 0) = (v = 0)"
    "significant_digits acc = 0 \<or> 10 ^ nat (significant_digits acc - 1) \<le> v"
    using assms(1) unfolding mantissa_holds_def by blast+
  have s: "s = (if dv \<noteq> 0 \<or> significant_digits acc \<noteq> 0 then significant_digits acc + 1
                else significant_digits acc)"
    unfolding s_def a(1) by simp
  have v0: "0 \<le> v" using m [symmetric] by simp
  have z: "dv = 0 \<longleftrightarrow> uint dv = 0" by (simp add: uint_0_iff)
  have d0: "0 \<le> uint dv" by simp
  show "uint (mantissa (accumulate_digit acc dv)) = 10 * v + uint dv"
    unfolding a(1) using a(2) by simp
  show "0 \<le> s" "s \<le> 20" using sd(1,2) by (simp_all add: s)
  show "(s = 0) = (10 * v + uint dv = 0)"
  proof (cases "significant_digits acc = 0")
    case True
    then have "v = 0" using sd(3) by simp
    then show ?thesis using True z by (simp add: s)
  next
    case False
    then have "v \<noteq> 0" using sd(3) by simp
    then have "0 < v" using v0 by simp
    then have "10 * v + uint dv \<noteq> 0" using d0 by linarith
    then show ?thesis using False sd(1) by (simp add: s)
  qed
  show "s = 0 \<or> 10 ^ nat (s - 1) \<le> 10 * v + uint dv"
  proof (cases "significant_digits acc = 0")
    case True
    then have v: "v = 0" using sd(3) by simp
    show ?thesis
    proof (cases "dv = 0")
      case dv: True
      then show ?thesis using True by (simp add: s)
    next
      case dv: False
      then have "uint dv \<noteq> 0" using z by simp
      then have "1 \<le> uint dv" using d0 by linarith
      then show ?thesis using True v dv by (simp add: s)
    qed
  next
    case False
    then have p: "0 < significant_digits acc" using sd(1) by simp
    have l: "10 ^ nat (significant_digits acc - 1) \<le> v" using sd(4) False by simp
    have "nat (significant_digits acc + 1 - 1) = Suc (nat (significant_digits acc - 1))"
      using p by simp
    then have "10 ^ nat (significant_digits acc + 1 - 1) \<le> 10 * v" using l by simp
    then have "10 ^ nat (significant_digits acc + 1 - 1) \<le> 10 * v + uint dv" using d0 by linarith
    then show ?thesis using False by (simp add: s)
  qed
qed

lemma run_summary_limit:
  assumes "digit_value c \<le> 9" and "mantissa_holds acc v"
    and "\<not> 10 * v + uint (digit_value c) < 2 ^ 64"
  shows "run_summary acc v (c # cs) (digit_run acc (c # cs))"
proof -
  define dv where "dv = digit_value c"
  define acc1 where "acc1 = accumulate_digit acc dv"
  have m: "uint (mantissa acc) = v" and a: "significant_digits acc < 20"
    using assms(2) by (simp_all add: mantissa_holds_def)
  have a1: "acc1 = acc\<lparr>digits := digits acc + 1, significant_digits := 20,
               decimal_exponent :=
                 (if sint (fractional_digits acc) < 0 then decimal_exponent acc + 1
                  else decimal_exponent acc)\<rparr>"
    unfolding acc1_def using accumulate_limit [OF _ m, of dv] assms(1,3) by (simp add: dv_def)
  have s: "20 \<le> significant_digits acc1" by (simp add: a1)
  have r: "digit_run acc (c # cs) =
      (if sint (fractional_digits acc1) < 0
       then acc1\<lparr>decimal_exponent := decimal_exponent acc1 + of_nat (length cs)\<rparr> else acc1)"
    using digit_run_stopped [OF s, of cs] a by (simp add: digit_step_def acc1_def dv_def)
  have k: "taken_from v (c # es) = 0" for es using assms(3) by simp
  define d where "d = uint (digit_value c)"
  have "d \<le> 9" using assms(1) by (simp add: d_def word_le_def)
  moreover have "\<not> 10 * v + d < 2 ^ 64" using assms(3) by (simp add: d_def)
  ultimately have v0: "v \<noteq> 0" by auto
  show ?thesis
    unfolding run_summary_def r
    using v0 m by (simp add: k a1 exI [of _ 1] del: taken_from.simps)
qed

lemma run_summary_full:
  assumes "digit_value c \<le> 9" and "mantissa_holds acc v"
    and "10 * v + uint (digit_value c) < 2 ^ 64"
    and "20 \<le> significant_digits (accumulate_digit acc (digit_value c))"
    and "sint (fractional_digits acc) + 1 < 2 ^ 63"
  shows "run_summary acc v (c # cs) (digit_run acc (c # cs))"
proof -
  define dv where "dv = digit_value c"
  define v1 where "v1 = 10 * v + uint dv"
  define acc1 where "acc1 = accumulate_digit acc dv"
  have m: "uint (mantissa acc) = v" and a: "significant_digits acc < 20"
    using assms(2) by (simp_all add: mantissa_holds_def)
  have d: "dv \<le> 9" and f: "10 * v + uint dv < 2 ^ 64" using assms(1,3) by (simp_all add: dv_def)
  note a1 = accumulate_fits(1) [OF d m f, folded acc1_def]
  note hs = holds_step [OF assms(2) d f, folded acc1_def v1_def]
  have s: "20 \<le> significant_digits acc1" using assms(4) by (simp add: acc1_def dv_def)
  then have "nat (significant_digits acc1 - 1) = 19" using hs(3) by simp
  then have big: "10 ^ 19 \<le> v1" using hs(5) s by auto
  have r: "digit_run acc (c # cs) =
      (if sint (fractional_digits acc1) < 0
       then acc1\<lparr>decimal_exponent := decimal_exponent acc1 + of_nat (length cs)\<rparr> else acc1)"
    using digit_run_stopped [OF s, of cs] a by (simp add: digit_step_def acc1_def dv_def)
  have k: "taken_from v (c # es) = 1" for es
    using f taken_from_full [OF big] by (simp add: dv_def v1_def)
  have fd: "fractional_digits acc1 =
      (if 0 \<le> sint (fractional_digits acc) then fractional_digits acc + 1
       else fractional_digits acc)"
    and de: "decimal_exponent acc1 = decimal_exponent acc"
    and ng: "negative acc1 = negative acc" and dg: "digits acc1 = digits acc + 1"
    by (subst a1, simp)+
  have sg: "sint (fractional_digits acc1) < 0 \<longleftrightarrow> sint (fractional_digits acc) < 0"
  proof (cases "0 \<le> sint (fractional_digits acc)")
    case True
    then show ?thesis using sint_succ [OF True assms(5)] by (simp add: fd)
  next
    case False
    then show ?thesis by (simp add: fd)
  qed
  have v0: "v1 \<noteq> 0" using big by auto
  have mv: "uint (mantissa acc1) = v1" by (rule hs(1))
  have sd20: "significant_digits acc1 = 20" using s hs(3) by simp
  have dec: "decimal_from v (take 1 (c # cs)) = v1" by (simp add: v1_def dv_def)
  show ?thesis
    unfolding run_summary_def r
    using v0 mv sd20 sg
    by (simp add: k dec fd de ng dg exI [of _ 1] v1_def dv_def del: taken_from.simps)
qed

lemma run_summary_step:
  assumes "digit_value c \<le> 9" and "mantissa_holds acc v"
    and "10 * v + uint (digit_value c) < 2 ^ 64"
    and "\<not> 20 \<le> significant_digits (accumulate_digit acc (digit_value c))"
    and "sint (fractional_digits acc) + 1 < 2 ^ 63"
    and "run_summary (accumulate_digit acc (digit_value c)) (10 * v + uint (digit_value c)) cs R"
  shows "run_summary acc v (c # cs) R"
proof -
  define dv where "dv = digit_value c"
  define v1 where "v1 = 10 * v + uint dv"
  define acc1 where "acc1 = accumulate_digit acc dv"
  define k where "k = taken_from v1 cs"
  have m: "uint (mantissa acc) = v" using assms(2) by (simp add: mantissa_holds_def)
  have d: "dv \<le> 9" and f: "10 * v + uint dv < 2 ^ 64" using assms(1,3) by (simp_all add: dv_def)
  note a1 = accumulate_fits(1) [OF d m f, folded acc1_def]
  have fd: "fractional_digits acc1 =
      (if 0 \<le> sint (fractional_digits acc) then fractional_digits acc + 1
       else fractional_digits acc)"
    and de: "decimal_exponent acc1 = decimal_exponent acc"
    and ng: "negative acc1 = negative acc" and dg: "digits acc1 = digits acc + 1"
    by (subst a1, simp)+
  have sg: "sint (fractional_digits acc1) < 0 \<longleftrightarrow> sint (fractional_digits acc) < 0"
  proof (cases "0 \<le> sint (fractional_digits acc)")
    case True
    then show ?thesis using sint_succ [OF True assms(5)] by (simp add: fd)
  next
    case False
    then show ?thesis by (simp add: fd)
  qed
  have kk: "taken_from v (c # es) = Suc (taken_from v1 es)" for es
    using f by (simp add: v1_def dv_def)
  have R: "run_summary acc1 v1 cs R" using assms(6) by (simp add: acc1_def v1_def dv_def)
  have r1: "uint (mantissa R) = decimal_from v1 (take k cs)"
    and r2: "negative R = negative acc1"
    and r3: "fractional_digits R =
          (if sint (fractional_digits acc1) < 0 then fractional_digits acc1
           else fractional_digits acc1 + of_nat k)"
    and r4: "decimal_exponent R =
          (if sint (fractional_digits acc1) < 0
           then decimal_exponent acc1 + of_nat (length cs - k)
           else decimal_exponent acc1)"
    and r5: "0 \<le> significant_digits R" "significant_digits R \<le> 20"
      "(significant_digits R = 0) = (decimal_from v1 (take k cs) = 0)"
    and r6: "(k = length cs \<and> mantissa_holds R (decimal_from v1 cs))
          \<or> (20 \<le> significant_digits R \<and> (\<forall>es. taken_from v1 (cs @ es) = k))"
    and r7: "\<exists>n. n \<le> length cs \<and> (cs = [] \<or> 1 \<le> n) \<and> digits R = digits acc1 + of_nat n"
    using R unfolding run_summary_def k_def by blast+
  have t: "decimal_from v (take (Suc k) (c # cs)) = decimal_from v1 (take k cs)"
    by (simp add: v1_def dv_def)
  have c1: "uint (mantissa R) = decimal_from v (take (taken_from v (c # cs)) (c # cs))"
    unfolding kk k_def [symmetric] t by (rule r1)
  have c2: "negative R = negative acc" using r2 ng by simp
  have c3: "fractional_digits R =
          (if sint (fractional_digits acc) < 0 then fractional_digits acc
           else fractional_digits acc + of_nat (taken_from v (c # cs)))"
    unfolding kk k_def [symmetric] r3 sg by (simp add: fd)
  have c4: "decimal_exponent R =
          (if sint (fractional_digits acc) < 0
           then decimal_exponent acc + of_nat (length (c # cs) - taken_from v (c # cs))
           else decimal_exponent acc)"
    unfolding kk k_def [symmetric] r4 sg by (simp add: de)
  have c5: "(significant_digits R = 0) = (decimal_from v (take (taken_from v (c # cs)) (c # cs)) = 0)"
    unfolding kk k_def [symmetric] t by (rule r5(3))
  have c6: "(taken_from v (c # cs) = length (c # cs) \<and> mantissa_holds R (decimal_from v (c # cs)))
          \<or> (20 \<le> significant_digits R
              \<and> (\<forall>es. taken_from v ((c # cs) @ es) = taken_from v (c # cs)))"
  proof -
    have e: "(c # cs) @ es = c # (cs @ es)" for es by simp
    have dv: "decimal_from v (c # cs) = decimal_from v1 cs" by (simp add: v1_def dv_def)
    show ?thesis unfolding e kk k_def [symmetric] dv using r6 by auto
  qed
  have c7: "\<exists>n. n \<le> length (c # cs) \<and> (c # cs = [] \<or> 1 \<le> n)
      \<and> digits R = digits acc + of_nat n"
  proof -
    obtain n where n: "n \<le> length cs" "digits R = digits acc1 + of_nat n"
      using r7 by blast
    have "digits R = digits acc + of_nat (Suc n)" using n(2) dg by simp
    then show ?thesis using n(1) by (intro exI [of _ "Suc n"]) simp
  qed
  show ?thesis
    unfolding run_summary_def
    using c1 c2 c3 c4 r5(1,2) c5 c6 c7 by blast
qed

lemma digit_run_summary:
  assumes "\<forall>c\<in>set ds. digit_value c \<le> 9" and "mantissa_holds acc v"
    and "sint (fractional_digits acc) + int (length ds) < 2 ^ 63"
  shows "run_summary acc v ds (digit_run acc ds)"
  using assms
proof (induction ds arbitrary: acc v)
  case Nil
  have "uint (mantissa acc) = v" "0 \<le> significant_digits acc" "significant_digits acc < 20"
    "(significant_digits acc = 0) = (v = 0)"
    using Nil.prems(2) unfolding mantissa_holds_def by blast+
  then show ?case using Nil.prems(2) by (simp add: run_summary_def)
next
  case (Cons c cs)
  define dv where "dv = digit_value c"
  define v1 where "v1 = 10 * v + uint dv"
  define acc1 where "acc1 = accumulate_digit acc dv"
  have d: "digit_value c \<le> 9" and r: "\<forall>c\<in>set cs. digit_value c \<le> 9"
    using Cons.prems(1) by simp_all
  have b1: "sint (fractional_digits acc) + 1 < 2 ^ 63" using Cons.prems(3) by simp
  have m: "uint (mantissa acc) = v" and a: "significant_digits acc < 20"
    using Cons.prems(2) by (simp_all add: mantissa_holds_def)
  show ?case
  proof (cases "10 * v + uint (digit_value c) < 2 ^ 64")
    case False
    show ?thesis by (rule run_summary_limit [OF d Cons.prems(2) False])
  next
    case f: True
    show ?thesis
    proof (cases "20 \<le> significant_digits (accumulate_digit acc (digit_value c))")
      case True
      show ?thesis by (rule run_summary_full [OF d Cons.prems(2) f True b1])
    next
      case False
      note hs = holds_step [OF Cons.prems(2) d f]
      have h1: "mantissa_holds (accumulate_digit acc (digit_value c)) (10 * v + uint (digit_value c))"
        unfolding mantissa_holds_def using hs False by simp
      note a1 = accumulate_fits(1) [OF d m f]
      have fd: "fractional_digits (accumulate_digit acc (digit_value c)) =
          (if 0 \<le> sint (fractional_digits acc) then fractional_digits acc + 1
           else fractional_digits acc)"
        by (subst a1, simp)
      have "sint (fractional_digits (accumulate_digit acc (digit_value c)))
              \<le> sint (fractional_digits acc) + 1"
      proof (cases "0 \<le> sint (fractional_digits acc)")
        case True
        then show ?thesis using sint_succ [OF True b1] by (simp add: fd)
      next
        case False
        then show ?thesis by (simp add: fd)
      qed
      then have b: "sint (fractional_digits (accumulate_digit acc (digit_value c)))
              + int (length cs) < 2 ^ 63"
        using Cons.prems(3) by simp
      have "run_summary (accumulate_digit acc (digit_value c)) (10 * v + uint (digit_value c)) cs
          (digit_run (accumulate_digit acc (digit_value c)) cs)"
        by (rule Cons.IH [OF r h1 b])
      moreover have "digit_run acc (c # cs) = digit_run (accumulate_digit acc (digit_value c)) cs"
        using a by (simp add: digit_step_def)
      ultimately show ?thesis
        using run_summary_step [OF d Cons.prems(2) f False b1] by simp
    qed
  qed
qed

section \<open>The sign and the digits of a literal\<close>

lemma all_digits_iff: "all_digits ds \<longleftrightarrow> (\<forall>c\<in>set ds. digit_value c \<le> 9)"
  by (simp add: all_digits_def list_all_iff)

lemma digit_run_before_point:
  assumes "sint (fractional_digits acc) < 0"
  shows "fractional_digits (digit_run acc ds) = fractional_digits acc"
  using assms
proof (induction ds arbitrary: acc)
  case Nil
  show ?case by simp
next
  case (Cons c ds)
  have "fractional_digits (digit_step acc c) = fractional_digits acc"
    using Cons.prems by (simp add: digit_step_def accumulate_digit_def)
  then show ?case using Cons.IH [of "digit_step acc c"] Cons.prems by simp
qed

lemma scan_digits_part:
  assumes "well_formed l"
  shows "scan_literal st (lit_sign l @ digits_text l @ rest)
           = continue_scan st rest (after_digits l)"
proof -
  define acc0 where "acc0 = initial_scanner\<lparr>negative := (lit_sign l = ''-'')\<rparr>"
  define acc1 where "acc1 = digit_run acc0 (lit_int l)"
  have sg: "lit_sign l = [] \<or> lit_sign l = ''+'' \<or> lit_sign l = ''-''"
    and d1: "\<forall>c\<in>set (lit_int l). digit_value c \<le> 9"
    and d2: "\<forall>c\<in>set (lit_frac_digits l). digit_value c \<le> 9"
    and ne: "lit_digits l \<noteq> []"
    using assms by (simp_all add: well_formed_def is_sign_def all_digits_iff)
  have f0: "sint (fractional_digits acc0) < 0" by (simp add: acc0_def initial_scanner_def)
  have f1: "sint (fractional_digits acc1) < 0"
    unfolding acc1_def using digit_run_before_point [OF f0] f0 by simp
  have b: "digits_text l @ rest \<noteq> []"
    "digit_value (hd (digits_text l @ rest)) \<le> 9 \<or> hd (digits_text l @ rest) = CHR ''.''"
  proof -
    show "digits_text l @ rest \<noteq> []"
      using ne by (auto simp: digits_text_def lit_digits_def lit_frac_digits_def split: option.splits)
    show "digit_value (hd (digits_text l @ rest)) \<le> 9 \<or> hd (digits_text l @ rest) = CHR ''.''"
    proof (cases "lit_int l")
      case Nil
      then show ?thesis
        using ne by (auto simp: digits_text_def lit_digits_def lit_frac_digits_def split: option.splits)
    next
      case (Cons c cs)
      then show ?thesis using d1 by (simp add: digits_text_def)
    qed
  qed
  have s: "scan_literal st (lit_sign l @ digits_text l @ rest)
      = continue_scan st (digits_text l @ rest) acc0"
    unfolding acc0_def by (rule scan_literal_start [OF sg b])
  show ?thesis
  proof (cases "lit_frac l")
    case None
    have "scan_literal st (lit_sign l @ lit_int l @ rest) = continue_scan st (lit_int l @ rest) acc0"
      using s None by (simp add: digits_text_def)
    also have "\<dots> = continue_scan st rest (digit_run acc0 (lit_int l))"
      by (rule continue_scan_digits [OF d1])
    finally show ?thesis
      using None by (simp add: digits_text_def after_digits_def acc0_def)
  next
    case (Some f)
    have d2': "\<forall>c\<in>set f. digit_value c \<le> 9" using d2 Some by (simp add: lit_frac_digits_def)
    have "scan_literal st (lit_sign l @ lit_int l @ CHR ''.'' # f @ rest)
        = continue_scan st (lit_int l @ CHR ''.'' # f @ rest) acc0"
      using s Some by (simp add: digits_text_def)
    also have "\<dots> = continue_scan st (CHR ''.'' # f @ rest) acc1"
      unfolding acc1_def by (rule continue_scan_digits [OF d1])
    also have "\<dots> = continue_scan st (f @ rest) (acc1\<lparr>fractional_digits := 0\<rparr>)"
      by (rule continue_scan_point [OF f1])
    also have "\<dots> = continue_scan st rest (digit_run (acc1\<lparr>fractional_digits := 0\<rparr>) f)"
      by (rule continue_scan_digits [OF d2'])
    finally show ?thesis
      using Some by (simp add: digits_text_def after_digits_def acc0_def acc1_def)
  qed
qed

lemma taken_from_le: "taken_from v ds \<le> length ds"
  by (induction ds arbitrary: v) simp_all

lemma taken_from_append:
  assumes "taken_from v ds = length ds"
  shows "taken_from v (ds @ es) = length ds + taken_from (decimal_from v ds) es"
  using assms
proof (induction ds arbitrary: v)
  case Nil
  show ?case by simp
next
  case (Cons c ds)
  then show ?case by (simp split: if_splits)
qed

lemma uint_of_nat_small:
  assumes "n < 2 ^ 31"
  shows "uint (of_nat n :: 64 word) = int n" and "sint (of_nat n :: 64 word) = int n"
    and "(of_nat n :: 32 word) = 0 \<longleftrightarrow> n = 0"
proof -
  have "int n < int (2 ^ 31)" using assms by (simp only: of_nat_less_iff)
  then have a: "int n < 2 ^ 31" by simp
  have b: "0 \<le> int n" by simp
  have "uint (word_of_int (int n) :: 64 word) = int n mod 2 ^ 64"
    by (simp only: uint_word_of_int) simp
  also have "\<dots> = int n" using a b by (intro mod_pos_pos_trivial) simp_all
  finally show u: "uint (of_nat n :: 64 word) = int n" by simp
  have "sint (word_of_int (int n) :: 64 word) = (int n + 2 ^ 63) mod 2 ^ 64 - 2 ^ 63"
    by (simp only: int_word_sint) simp
  moreover have "(int n + 2 ^ 63) mod 2 ^ 64 = int n + 2 ^ 63"
    using a b by (intro mod_pos_pos_trivial) simp_all
  ultimately show "sint (of_nat n :: 64 word) = int n" by simp
  have "uint (word_of_int (int n) :: 32 word) = int n mod 2 ^ 32"
    by (simp only: uint_word_of_int) simp
  also have "\<dots> = int n" using a b by (intro mod_pos_pos_trivial) simp_all
  finally have w: "uint (of_nat n :: 32 word) = int n" by simp
  show "(of_nat n :: 32 word) = 0 \<longleftrightarrow> n = 0"
  proof
    assume "(of_nat n :: 32 word) = 0"
    then have "uint (of_nat n :: 32 word) = 0" by simp
    then show "n = 0" using w by simp
  next
    assume "n = 0"
    then show "(of_nat n :: 32 word) = 0" by simp
  qed
qed


lemma initial_holds: "mantissa_holds (initial_scanner\<lparr>negative := b\<rparr>) 0"
  by (simp add: mantissa_holds_def initial_scanner_def)

lemma after_digits_summary:
  assumes "well_formed l" and "length (lit_digits l) < 2 ^ 31"
  shows "uint (mantissa (after_digits l)) = decimal_value (mantissa_digits l)"
    and "negative (after_digits l) = (lit_sign l = ''-'')"
    and "(significant_digits (after_digits l) = 0) = (decimal_value (mantissa_digits l) = 0)"
    and "digits (after_digits l) \<noteq> 0"
    and "sint (fractional_digits (after_digits l)) =
           (case lit_frac l of None \<Rightarrow> - 1
            | Some f \<Rightarrow> int (length (mantissa_digits l) - length (lit_int l)))"
    and "uint (decimal_exponent (after_digits l)) =
           int (length (lit_int l) - length (mantissa_digits l))"
proof -
  define acc0 where "acc0 = initial_scanner\<lparr>negative := (lit_sign l = ''-'')\<rparr>"
  define ds1 where "ds1 = lit_int l"
  define k1 where "k1 = taken_from 0 ds1"
  define acc1 where "acc1 = digit_run acc0 ds1"
  have d1: "\<forall>c\<in>set ds1. digit_value c \<le> 9"
    and d2: "\<forall>c\<in>set (lit_frac_digits l). digit_value c \<le> 9"
    and ne: "lit_digits l \<noteq> []"
    using assms(1) by (simp_all add: well_formed_def all_digits_iff ds1_def)
  have h0: "mantissa_holds acc0 0" unfolding acc0_def by (rule initial_holds)
  have i0: "fractional_digits acc0 = - 1" "decimal_exponent acc0 = 0" "digits acc0 = 0"
    "negative acc0 = (lit_sign l = ''-'')" "significant_digits acc0 = 0"
    by (simp_all add: acc0_def initial_scanner_def)
  have L1: "length ds1 < 2 ^ 31" using assms(2) by (simp add: lit_digits_def ds1_def)
  have "int (length ds1) < int (2 ^ 31)" using L1 by (simp only: of_nat_less_iff)
  then have b1: "sint (fractional_digits acc0) + int (length ds1) < 2 ^ 63" by (simp add: i0)
  have RS1: "run_summary acc0 0 ds1 acc1"
    unfolding acc1_def by (rule digit_run_summary [OF d1 h0 b1])
  have m1: "uint (mantissa acc1) = decimal_from 0 (take k1 ds1)"
    and n1: "negative acc1 = (lit_sign l = ''-'')"
    and f1: "fractional_digits acc1 = - 1"
    and e1: "decimal_exponent acc1 = of_nat (length ds1 - k1)"
    and z1: "(significant_digits acc1 = 0) = (decimal_from 0 (take k1 ds1) = 0)"
    and j1: "(k1 = length ds1 \<and> mantissa_holds acc1 (decimal_from 0 ds1))
          \<or> (20 \<le> significant_digits acc1 \<and> (\<forall>es. taken_from 0 (ds1 @ es) = k1))"
    and g1: "\<exists>n. n \<le> length ds1 \<and> (ds1 = [] \<or> 1 \<le> n) \<and> digits acc1 = of_nat n"
    using RS1 unfolding run_summary_def k1_def [symmetric] by (simp_all add: i0)
  have k1le: "k1 \<le> length ds1" unfolding k1_def by (rule taken_from_le)
  obtain n1' where n1': "n1' \<le> length ds1" "ds1 = [] \<or> 1 \<le> n1'" "digits acc1 = of_nat n1'"
    using g1 by blast
  have small: "n < 2 ^ 31" if "n \<le> length (lit_digits l)" for n using that assms(2) by simp
  show "uint (mantissa (after_digits l)) = decimal_value (mantissa_digits l)"
    and "negative (after_digits l) = (lit_sign l = ''-'')"
    and "(significant_digits (after_digits l) = 0) = (decimal_value (mantissa_digits l) = 0)"
    and "digits (after_digits l) \<noteq> 0"
    and "sint (fractional_digits (after_digits l)) =
           (case lit_frac l of None \<Rightarrow> - 1
            | Some f \<Rightarrow> int (length (mantissa_digits l) - length (lit_int l)))"
    and "uint (decimal_exponent (after_digits l)) =
           int (length (lit_int l) - length (mantissa_digits l))"
  proof -
    have "uint (mantissa (after_digits l)) = decimal_value (mantissa_digits l)
      \<and> negative (after_digits l) = (lit_sign l = ''-'')
      \<and> (significant_digits (after_digits l) = 0) = (decimal_value (mantissa_digits l) = 0)
      \<and> digits (after_digits l) \<noteq> 0
      \<and> sint (fractional_digits (after_digits l)) =
           (case lit_frac l of None \<Rightarrow> - 1
            | Some f \<Rightarrow> int (length (mantissa_digits l) - length (lit_int l)))
      \<and> uint (decimal_exponent (after_digits l)) =
           int (length (lit_int l) - length (mantissa_digits l))"
    proof (cases "lit_frac l")
      case None
      have all: "lit_digits l = ds1" using None by (simp add: lit_digits_def lit_frac_digits_def ds1_def)
      have a: "after_digits l = acc1" using None by (simp add: after_digits_def acc1_def acc0_def ds1_def)
      have md: "mantissa_digits l = take k1 ds1" by (simp add: mantissa_digits_def all k1_def)
      have lm: "length (mantissa_digits l) = k1" using k1le by (simp add: md)
      have "ds1 \<noteq> []" using ne all by simp
      then have "1 \<le> n1'" using n1'(2) by simp
      moreover have "n1' < 2 ^ 31" using small [of n1'] n1'(1) all by simp
      ultimately have dg: "digits acc1 \<noteq> 0" using uint_of_nat_small(3) [of n1'] n1'(3) by simp
      have "length ds1 - k1 < 2 ^ 31" using L1 by simp
      then have de: "uint (decimal_exponent acc1) = int (length ds1 - k1)"
        using uint_of_nat_small(1) by (simp add: e1)
      show ?thesis
        using m1 n1 z1 dg de
        by (simp add: a md None f1 decimal_value_def ds1_def [symmetric] k1le)
    next
      case (Some f)
      define acc1p where "acc1p = acc1\<lparr>fractional_digits := 0\<rparr>"
      have all: "lit_digits l = ds1 @ f" using Some by (simp add: lit_digits_def lit_frac_digits_def ds1_def)
      have a: "after_digits l = digit_run acc1p f"
        using Some by (simp add: after_digits_def acc1_def acc0_def ds1_def acc1p_def)
      have df: "\<forall>c\<in>set f. digit_value c \<le> 9" using d2 Some by (simp add: lit_frac_digits_def)
      have L2: "length f < 2 ^ 31" using assms(2) all by simp
      from j1 show ?thesis
      proof
        assume A: "k1 = length ds1 \<and> mantissa_holds acc1 (decimal_from 0 ds1)"
        define v1 where "v1 = decimal_from 0 ds1"
        define k2 where "k2 = taken_from v1 f"
        have h1: "mantissa_holds acc1p v1" using A by (auto simp: mantissa_holds_def acc1p_def v1_def)
        have "int (length f) < int (2 ^ 31)" using L2 by (simp only: of_nat_less_iff)
        then have b2: "sint (fractional_digits acc1p) + int (length f) < 2 ^ 63"
          by (simp add: acc1p_def)
        have RS2: "run_summary acc1p v1 f (digit_run acc1p f)"
          by (rule digit_run_summary [OF df h1 b2])
        have m2: "uint (mantissa (digit_run acc1p f)) = decimal_from v1 (take k2 f)"
          and n2: "negative (digit_run acc1p f) = (lit_sign l = ''-'')"
          and f2: "fractional_digits (digit_run acc1p f) = of_nat k2"
          and e2: "decimal_exponent (digit_run acc1p f) = of_nat (length ds1 - k1)"
          and z2: "(significant_digits (digit_run acc1p f) = 0) = (decimal_from v1 (take k2 f) = 0)"
          and g2: "\<exists>n. n \<le> length f \<and> (f = [] \<or> 1 \<le> n)
                    \<and> digits (digit_run acc1p f) = of_nat n1' + of_nat n"
          using RS2 unfolding run_summary_def k2_def [symmetric]
          by (simp_all add: acc1p_def n1 e1 n1'(3))
        obtain n2' where n2': "n2' \<le> length f" "f = [] \<or> 1 \<le> n2'"
          "digits (digit_run acc1p f) = of_nat n1' + of_nat n2'"
          using g2 by blast
        have k: "taken_from 0 (ds1 @ f) = length ds1 + k2"
          using taken_from_append [of 0 ds1 f] A by (simp add: k1_def k2_def v1_def)
        have md: "mantissa_digits l = ds1 @ take k2 f" by (simp add: mantissa_digits_def all k)
        have lm: "length (mantissa_digits l) = length ds1 + k2"
          using taken_from_le [of v1 f] by (simp add: md k2_def)
        have M: "decimal_value (mantissa_digits l) = decimal_from v1 (take k2 f)"
          by (simp add: md decimal_value_def decimal_from_append v1_def)
        have "1 \<le> n1' + n2'" using n1'(2) n2'(2) ne all by auto
        moreover have "n1' + n2' < 2 ^ 31" using small [of "n1' + n2'"] n1'(1) n2'(1) all by simp
        ultimately have dg: "digits (digit_run acc1p f) \<noteq> 0"
          using uint_of_nat_small(3) [of "n1' + n2'"] n2'(3) by auto
        have "k2 < 2 ^ 31" using taken_from_le [of v1 f] L2 by (simp add: k2_def)
        then have fd: "sint (fractional_digits (digit_run acc1p f)) = int k2"
          using uint_of_nat_small(2) by (simp add: f2)
        have de: "uint (decimal_exponent (digit_run acc1p f)) = 0" using A by (simp add: e2)
        show ?thesis
          using m2 n2 z2 dg fd de by (simp add: a M lm Some ds1_def [symmetric])
      next
        assume B: "20 \<le> significant_digits acc1 \<and> (\<forall>es. taken_from 0 (ds1 @ es) = k1)"
        have s: "20 \<le> significant_digits acc1p" using B by (simp add: acc1p_def)
        have r: "digit_run acc1p f = acc1p"
          using digit_run_stopped [OF s, of f] by (simp add: acc1p_def)
        have k: "taken_from 0 (ds1 @ f) = k1" using B by simp
        have md: "mantissa_digits l = take k1 ds1" using k1le by (simp add: mantissa_digits_def all k)
        have lm: "length (mantissa_digits l) = k1" using k1le by (simp add: md)
        have "ds1 \<noteq> []"
        proof
          assume "ds1 = []"
          then have "acc1 = acc0" by (simp add: acc1_def)
          then show False using B i0(5) by simp
        qed
        then have "1 \<le> n1'" using n1'(2) by simp
        moreover have "n1' < 2 ^ 31" using small [of n1'] n1'(1) all by simp
        ultimately have dg: "digits acc1 \<noteq> 0" using uint_of_nat_small(3) [of n1'] n1'(3) by simp
        have "length ds1 - k1 < 2 ^ 31" using L1 by simp
        then have de: "uint (decimal_exponent acc1) = int (length ds1 - k1)"
          using uint_of_nat_small(1) by (simp add: e1)
        show ?thesis
          unfolding a r
          using m1 n1 z1 dg de k1le
          by (simp add: acc1p_def md Some decimal_value_def ds1_def [symmetric])
      qed
    qed
    then show "uint (mantissa (after_digits l)) = decimal_value (mantissa_digits l)"
      and "negative (after_digits l) = (lit_sign l = ''-'')"
      and "(significant_digits (after_digits l) = 0) = (decimal_value (mantissa_digits l) = 0)"
      and "digits (after_digits l) \<noteq> 0"
      and "sint (fractional_digits (after_digits l)) =
           (case lit_frac l of None \<Rightarrow> - 1
            | Some f \<Rightarrow> int (length (mantissa_digits l) - length (lit_int l)))"
      and "uint (decimal_exponent (after_digits l)) =
           int (length (lit_int l) - length (mantissa_digits l))"
      by blast+
  qed
qed

section \<open>The exponent of a literal\<close>











section \<open>What the scanner makes of a literal\<close>







section \<open>Overflow and underflow of the decimal exponent\<close>





section \<open>A second decimal point\<close>

text \<open>
  C6.  Let the literal be an optional sign, digits, a decimal point and digits, and let
  another decimal point follow it.  Then the call does what it does on the literal alone
  (the same value and the same status), and leaves the cursor on the second point; when
  the literal has a digit, the status is the one the call was entered with, so no error
  is raised.  (The status at the call is clear, and the literal has fewer than \<open>2 ^ 31\<close>
  digits, the range of the C \<^verbatim>\<open>int\<close> that counts them.)
\<close>

theorem second_decimal_point_ends_literal:
  assumes "\<not> failed st" and "sg = [] \<or> sg = ''+'' \<or> sg = ''-''"
    and "\<forall>c\<in>set ds1. digit_value c \<le> 9" and "\<forall>c\<in>set ds2. digit_value c \<le> 9"
    and "length (ds1 @ ds2) < 2 ^ 31"
  shows "parse_double st (sg @ ds1 @ ''.'' @ ds2 @ ''.'' @ rest)
           = (returned_bits (parse_double st (sg @ ds1 @ ''.'' @ ds2)),
              status_after (parse_double st (sg @ ds1 @ ''.'' @ ds2)),
              ''.'' @ rest)
       \<and> window_after (parse_double st (sg @ ds1 @ ''.'' @ ds2)) = []
       \<and> (ds1 @ ds2 \<noteq> [] \<longrightarrow>
            status_after (parse_double st (sg @ ds1 @ ''.'' @ ds2 @ ''.'' @ rest)) = st)"
proof (cases "ds1 @ ds2 = []")
  case True
  then show ?thesis using assms(1,2)
    by (auto simp: scan_defs continue_scan_def digit_value_def)
next
  case False
  define l where "l = \<lparr>lit_sign = sg, lit_int = ds1, lit_frac = Some ds2, lit_exp = None\<rparr>"
  have wf: "well_formed l"
    using assms(2,3,4) False
    by (simp add: l_def well_formed_def is_sign_def all_digits_iff lit_frac_digits_def
        lit_digits_def)
  have ld: "length (lit_digits l) < 2 ^ 31"
    using assms(5) by (simp add: l_def lit_digits_def lit_frac_digits_def)
  have t: "lit_sign l @ digits_text l @ s = sg @ ds1 @ CHR ''.'' # ds2 @ s" for s
    by (simp add: l_def digits_text_def)
  note s = after_digits_summary [OF wf ld]
  have fd: "0 \<le> sint (fractional_digits (after_digits l))"
    using s(5) by (simp add: l_def)
  have a: "scan_literal st (sg @ ds1 @ CHR ''.'' # ds2) = (end_of_number, st, [], after_digits l)"
    using scan_digits_part [OF wf, of st "[]"] assms(1) t [of "[]"]
    by (simp add: continue_scan_end)
  have b: "scan_literal st (sg @ ds1 @ CHR ''.'' # ds2 @ CHR ''.'' # rest)
      = (end_of_number, st, CHR ''.'' # rest, after_digits l)"
    using scan_digits_part [OF wf, of st "CHR ''.'' # rest"] continue_scan_second_point [OF fd]
    by (simp add: t)
  show ?thesis using s(4)
    by (simp add: parse_double_def returned_bits_def status_after_def window_after_def a b)
qed

theorem second_decimal_point_ends_literal_witness:
  "\<not> failed \<lparr>failed = False, error_message = []\<rparr>
   \<and> digit_value CHR ''1'' \<le> 9 \<and> digit_value CHR ''2'' \<le> 9
   \<and> length ''12'' < 2 ^ 31
   \<and> parse_double \<lparr>failed = False, error_message = []\<rparr> ''1.2.3''
     = (0x3FF3333333333333, \<lparr>failed = False, error_message = []\<rparr>, ''.3'')"
proof -
  let ?st = "\<lparr>failed = False, error_message = []\<rparr>"
  have a: "\<not> failed ?st" by simp
  have b: "[] = [] \<or> [] = ''+'' \<or> [] = ''-''" by simp
  have c: "\<forall>c\<in>set ''1''. digit_value c \<le> 9" by (simp add: digit_value_def)
  have d: "\<forall>c\<in>set ''2''. digit_value c \<le> 9" by (simp add: digit_value_def)
  have e: "length (''1'' @ ''2'') < 2 ^ 31" by simp
  have v: "parse_double ?st ''1.2'' = (0x3FF3333333333333, ?st, [])"
    by code_simp
  show ?thesis
    using second_decimal_point_ends_literal [OF a b c d e, of "''3''"] c d
    by (simp add: v returned_bits_def status_after_def window_after_def)
qed

end
